theory Spec2Isabelle
  imports Main "HOL-Library.Word"
begin

unbundle bit_operations_syntax

section \<open>Field arithmetic: class GF256 of gf256.js\<close>

text \<open>
  Field elements are the bytes \<open>0..255\<close>. Every operation of the class returns its result
  wrapped in a one-element \<open>Uint8Array\<close> and unwraps such an argument again
  (\<open>a instanceof Uint8Array ? a[0] : a\<close>); the model passes the byte itself.
\<close>

type_synonym byte = "8 word"

text \<open>
  The exceptions of the two files, by their messages: \<open>Division by zero\<close>
  (\<open>GF256.inverse\<close>), \<open>Need at least 2 shares to reconstruct\<close>, \<open>Need at least 2
  existing shares to generate compatible share\<close>, \<open>Invalid or tampered shares detected\<close>,
  \<open>Incompatible share versions\<close>, and the \<open>RangeError\<close> of \<open>crypto.timingSafeEqual\<close>,
  \<open>Input buffers must have the same byte length\<close>.
\<close>

datatype error =
    DivisionByZero
  | NeedAtLeast2Shares
  | NeedAtLeast2ExistingShares
  | InvalidOrTamperedShares
  | IncompatibleShareVersions
  | InputBuffersMustHaveSameByteLength

definition PRIMITIVE_POLY :: nat where
  "PRIMITIVE_POLY = 0x11d"

text \<open>One round of the loop \<open>for (let i = 0; i < 8; i++)\<close> of \<open>multiplyWithoutTables\<close>,
  on the pair \<open>(result, temp)\<close>.\<close>

definition mwt_step :: "byte \<Rightarrow> nat \<Rightarrow> byte \<times> byte \<Rightarrow> byte \<times> byte" where
  "mwt_step a i st =
     (let result = fst st; temp = snd st;
          result = (if a AND push_bit i 1 \<noteq> 0 then result XOR temp else result);
          highBitSet = (temp AND 0x80 \<noteq> 0);
          temp = push_bit 1 temp AND 0xff;
          temp = (if highBitSet then temp XOR of_nat (PRIMITIVE_POLY AND 0xff) else temp)
      in (result, temp))"

definition multiplyWithoutTables :: "byte \<Rightarrow> byte \<Rightarrow> byte" where
  "multiplyWithoutTables a b = fst (fold (mwt_step a) [0..<8] (0, b))"

definition initLogTable :: "nat list" where
  "initLogTable =
     fst (fold (\<lambda>i (table, v). (table[unat v := i], multiplyWithoutTables v 2))
            [0..<255] (replicate 256 0, 1))"

definition initExpTable :: "byte list" where
  "initExpTable =
     (let table = fst (fold (\<lambda>i (table, v). (table[i := v], multiplyWithoutTables v 2))
                         [0..<255] (replicate 256 0, 1))
      in table[255 := table ! 0])"

definition LOG_TABLE :: "nat list" where
  "LOG_TABLE = initLogTable"

definition EXP_TABLE :: "byte list" where
  "EXP_TABLE = initExpTable"

definition GF256_multiply :: "byte \<Rightarrow> byte \<Rightarrow> byte" where
  "GF256_multiply a b =
     (if a = 0 \<or> b = 0 then 0
      else let logA = LOG_TABLE ! unat a; logB = LOG_TABLE ! unat b;
               sumLog = (logA + logB) mod 255
           in EXP_TABLE ! sumLog)"

definition GF256_add :: "byte \<Rightarrow> byte \<Rightarrow> byte" where
  "GF256_add a b = a XOR b"

definition GF256_subtract :: "byte \<Rightarrow> byte \<Rightarrow> byte" where
  "GF256_subtract a b = GF256_add a b"

text \<open>
  \<open>pow\<close> computes \<open>(logBase * exp) % 255\<close> on JavaScript numbers, which are doubles. The
  exponent is modelled as an integer that a double holds (the engine passes the loop index
  \<open>j\<close>); exponents with a fractional part, \<open>NaN\<close> and the infinities are outside the
  model. A double holds every integer of magnitude up to \<open>2\<^sup>5\<^sup>3\<close>; a larger magnitude is
  rounded to 53 significant bits, ties to even, and is an infinity from \<open>2\<^sup>1\<^sup>0\<^sup>2\<^sup>4\<close> on.
  \<open>width n\<close> is the number of bits of \<open>n\<close>; \<open>js_round\<close> rounds a magnitude, with \<open>None\<close>
  for the infinity.
\<close>

function width :: "int \<Rightarrow> nat" where
  "width n = (if n \<le> 0 then 0 else Suc (width (n div 2)))"
  by pat_completeness auto
termination
  by (relation "measure nat") auto

declare width.simps [simp del]

definition js_round :: "int \<Rightarrow> int option" where
  "js_round n =
     (if n \<le> 2 ^ 53 then Some n
      else let k = width n - 53; q = n div 2 ^ k; r = n mod 2 ^ k;
               q = (if 2 ^ k < 2 * r \<or> (2 * r = 2 ^ k \<and> odd q) then q + 1 else q);
               m = q * 2 ^ k
           in if m < 2 ^ 1024 then Some m else None)"

text \<open>An integer that a double holds exactly, as the arguments of the arithmetic are.\<close>

definition js_integer :: "int \<Rightarrow> bool" where
  "js_integer n = (js_round \<bar>n\<bar> = Some \<bar>n\<bar>)"

text \<open>The product \<open>a * b\<close> of two such numbers, \<open>None\<close> for an infinity.\<close>

definition js_times :: "int \<Rightarrow> int \<Rightarrow> int option" where
  "js_times a b = map_option (\<lambda>m. sgn (a * b) * m) (js_round \<bar>a * b\<bar>)"

text \<open>\<open>a % n\<close> for a positive \<open>n\<close>: the remainder has the sign of the dividend \<open>a\<close>.\<close>

definition js_remainder :: "int \<Rightarrow> int \<Rightarrow> int" where
  "js_remainder a n = sgn a * (\<bar>a\<bar> mod n)"

text \<open>
  \<open>EXP_TABLE[resultLog]\<close> is \<open>undefined\<close> for a negative \<open>resultLog\<close> and for the \<open>NaN\<close>
  that the remainder of an infinity is; \<open>new Uint8Array([undefined])\<close> holds 0. A
  remainder \<open>-0\<close> reads the entry 0 of the table.
\<close>

definition GF256_pow :: "byte \<Rightarrow> int \<Rightarrow> byte" where
  "GF256_pow base e =
     (if base = 0 then 0
      else if e = 0 then 1
      else let logBase = LOG_TABLE ! unat base
           in case js_times (int logBase) e of
                None \<Rightarrow> 0
              | Some product \<Rightarrow>
                  let resultLog = js_remainder product 255
                  in if 0 \<le> resultLog then EXP_TABLE ! nat resultLog else 0)"

definition GF256_inverse :: "byte \<Rightarrow> error + byte" where
  "GF256_inverse a =
     (if a = 0 then Inl DivisionByZero
      else if a = 1 then Inr 1
      else let logA = LOG_TABLE ! unat a; invLog = (255 - logA) mod 255
           in Inr (EXP_TABLE ! invLog))"

section \<open>Shares: types.ts\<close>

datatype ShareType = deviceShare | serverShare | recoveryShare

text \<open>
  \<open>x\<close> is a JavaScript number. The engine reads it in two ways only, and both keep its low
  eight bits: \<open>Buffer.from([share.x])\<close> in the hash, and the XOR of \<open>GF256.subtract\<close>,
  whose result is stored in a \<open>Uint8Array\<close>. It is modelled as that byte. \<open>y\<close> is the \<open>Uint8Array\<close>
  the engine casts it to.
\<close>

record Share =
  type :: ShareType
  x :: byte
  y :: "byte list"
  version :: int
  hash :: string

section \<open>Integrity tag: calculateShareHash and verifyShare of keySharing.ts\<close>

text \<open>
  SHA-256 comes from Node's \<open>crypto\<close> module and is a parameter \<open>sha256\<close> of the model:
  the 256-bit digest of the bytes fed to \<open>hash.update\<close>, in order. \<open>digest("hex")\<close> writes
  the 32 digest bytes as 64 lower-case hexadecimal digits.
\<close>

type_synonym digest_fn = "byte list \<Rightarrow> 256 word"

definition digest_bytes :: "256 word \<Rightarrow> byte list" where
  "digest_bytes d = map (\<lambda>i. ucast (drop_bit (8 * (31 - i)) d)) [0..<32]"

definition hex_digit :: "nat \<Rightarrow> char" where
  "hex_digit n = ''0123456789abcdef'' ! n"

definition hex_encode :: "byte list \<Rightarrow> string" where
  "hex_encode bs = concat (map (\<lambda>b. [hex_digit (unat b div 16), hex_digit (unat b mod 16)]) bs)"

text \<open>
  \<open>Buffer.from(s, "hex")\<close> of Node: two hexadecimal digits (either case) give one byte;
  decoding stops at the first pair that is not hexadecimal, and a trailing single character
  is dropped.
\<close>

definition unhex :: "char \<Rightarrow> nat option" where
  "unhex c =
     (let n = (of_char c :: nat)
      in if 48 \<le> n \<and> n \<le> 57 then Some (n - 48)
         else if 97 \<le> n \<and> n \<le> 102 then Some (n - 87)
         else if 65 \<le> n \<and> n \<le> 70 then Some (n - 55)
         else None)"

fun Buffer_from_hex :: "string \<Rightarrow> byte list" where
  "Buffer_from_hex (c1 # c2 # cs) =
     (case unhex c1 of
        None \<Rightarrow> []
      | Some hi \<Rightarrow>
          (case unhex c2 of
             None \<Rightarrow> []
           | Some lo \<Rightarrow> of_nat (16 * hi + lo) # Buffer_from_hex cs))"
| "Buffer_from_hex cs = []"

text \<open>
  \<open>crypto.timingSafeEqual(a, b)\<close> of Node throws a \<open>RangeError\<close> ("Input buffers must have
  the same byte length") when the lengths differ, and compares the contents otherwise.
\<close>

definition timingSafeEqual :: "byte list \<Rightarrow> byte list \<Rightarrow> error + bool" where
  "timingSafeEqual a b =
     (if length a \<noteq> length b then Inl InputBuffersMustHaveSameByteLength else Inr (a = b))"

definition type_name :: "ShareType \<Rightarrow> string" where
  "type_name t =
     (case t of deviceShare \<Rightarrow> ''deviceShare''
              | serverShare \<Rightarrow> ''serverShare''
              | recoveryShare \<Rightarrow> ''recoveryShare'')"

definition calculateShareHash :: "digest_fn \<Rightarrow> Share \<Rightarrow> string" where
  "calculateShareHash sha256 share =
     hex_encode (digest_bytes (sha256 ([x share] @ y share @ map of_char (type_name (type share)))))"

definition verifyShare :: "digest_fn \<Rightarrow> Share \<Rightarrow> error + bool" where
  "verifyShare sha256 share =
     (if hash share = [] then Inr False
      else let calculatedHash = calculateShareHash sha256 share
           in timingSafeEqual (Buffer_from_hex calculatedHash) (Buffer_from_hex (hash share)))"

section \<open>The engine: split, reconstruct and generateCompatibleShare of keySharing.ts\<close>

text \<open>
  \<open>getSecureRandomByte\<close> is the second parameter of \<open>split\<close>: \<open>rnd k\<close> is the byte drawn
  in the round \<open>byteIndex = k\<close> (one draw for each round, in order).
\<close>

definition shareTypes :: "ShareType list" where
  "shareTypes = [deviceShare, serverShare, recoveryShare]"

text \<open>The loop over \<open>j\<close>: the polynomial with the given coefficients at \<open>i\<close>.\<close>

definition evaluation :: "byte list \<Rightarrow> nat \<Rightarrow> byte" where
  "evaluation coefficients i =
     fold (\<lambda>j ev. GF256_add ev (GF256_multiply (coefficients ! j) (GF256_pow (of_nat i) (int j))))
       [0..<length coefficients] 0"

text \<open>
  The body of the loop \<open>for (let i = 1; i <= 3; i++)\<close>. The array \<open>shares\<close> starts empty and
  \<open>shares[i - 1]\<close> is created the first time the body runs for \<open>i\<close>, which appends it (the
  index is then the length of the array).
\<close>

definition split_share_step ::
    "nat \<Rightarrow> byte list \<Rightarrow> nat \<Rightarrow> nat \<Rightarrow> Share list \<Rightarrow> Share list" where
  "split_share_step len coefficients byteIndex i shares =
     (let shares =
            (if i - 1 < length shares then shares
             else shares @ [\<lparr>type = shareTypes ! (i - 1), x = of_nat i,
                              y = replicate len 0, version = 1, hash = []\<rparr>]);
          share = shares ! (i - 1)
      in shares[i - 1 := share\<lparr>y := (y share)[byteIndex := evaluation coefficients i]\<rparr>])"

definition split_byte_step ::
    "(nat \<Rightarrow> byte) \<Rightarrow> byte list \<Rightarrow> nat \<Rightarrow> Share list \<Rightarrow> Share list" where
  "split_byte_step rnd privateKey byteIndex shares =
     (let coefficients = [privateKey ! byteIndex, rnd byteIndex]
      in fold (split_share_step (length privateKey) coefficients byteIndex) [1..<4] shares)"

definition split :: "digest_fn \<Rightarrow> (nat \<Rightarrow> byte) \<Rightarrow> byte list \<Rightarrow> Share list" where
  "split sha256 rnd privateKey =
     map (\<lambda>share. share\<lparr>hash := calculateShareHash sha256 share\<rparr>)
       (fold (split_byte_step rnd privateKey) [0..<length privateKey] [])"

text \<open>\<open>shares.filter((share) => !this.verifyShare(share))\<close>; an exception of
  \<open>verifyShare\<close> ends the filter.\<close>

fun invalidShares :: "digest_fn \<Rightarrow> Share list \<Rightarrow> error + Share list" where
  "invalidShares sha256 [] = Inr []"
| "invalidShares sha256 (share # rest) =
     (case verifyShare sha256 share of
        Inl e \<Rightarrow> Inl e
      | Inr ok \<Rightarrow>
          (case invalidShares sha256 rest of
             Inl e \<Rightarrow> Inl e
           | Inr invalid \<Rightarrow> Inr (if \<not> ok then share # invalid else invalid)))"

text \<open>
  The interpolation loops of \<open>reconstruct\<close> and \<open>generateCompatibleShare\<close> are the same
  text, except for the point \<open>at\<close> where the polynomial is evaluated (\<open>0\<close> in
  \<open>reconstruct\<close>, \<open>newShare.x\<close> in \<open>generateCompatibleShare\<close>) and the bound of the outer
  loop. A read of \<open>y\<close> past its end is \<open>undefined\<close>, which \<open>new Uint8Array([undefined])\<close>
  stores as 0.
\<close>

definition byte_at :: "byte list \<Rightarrow> nat \<Rightarrow> byte" where
  "byte_at ys k = (if k < length ys then ys ! k else 0)"

fun lagrange_term :: "byte \<Rightarrow> Share list \<Rightarrow> nat \<Rightarrow> nat list \<Rightarrow> byte \<Rightarrow> error + byte" where
  "lagrange_term at shares i [] trm = Inr trm"
| "lagrange_term at shares i (j # js) trm =
     (if i \<noteq> j then
        (let numerator = GF256_subtract at (x (shares ! j));
             denominator = GF256_subtract (x (shares ! i)) (x (shares ! j))
         in case GF256_inverse denominator of
              Inl e \<Rightarrow> Inl e
            | Inr inverse_d \<Rightarrow>
                lagrange_term at shares i js
                  (GF256_multiply trm (GF256_multiply numerator inverse_d)))
      else lagrange_term at shares i js trm)"

fun lagrange_sum :: "byte \<Rightarrow> Share list \<Rightarrow> nat \<Rightarrow> nat list \<Rightarrow> byte \<Rightarrow> error + byte" where
  "lagrange_sum at shares byteIndex [] result = Inr result"
| "lagrange_sum at shares byteIndex (i # is) result =
     (case lagrange_term at shares i [0..<length shares] (byte_at (y (shares ! i)) byteIndex) of
        Inl e \<Rightarrow> Inl e
      | Inr trm \<Rightarrow> lagrange_sum at shares byteIndex is (GF256_add result trm))"

fun interpolate_bytes ::
    "byte \<Rightarrow> Share list \<Rightarrow> nat list \<Rightarrow> byte list \<Rightarrow> error + byte list" where
  "interpolate_bytes at shares [] out = Inr out"
| "interpolate_bytes at shares (byteIndex # rest) out =
     (case lagrange_sum at shares byteIndex [0..<length shares] 0 of
        Inl e \<Rightarrow> Inl e
      | Inr result \<Rightarrow> interpolate_bytes at shares rest (out[byteIndex := result]))"

definition reconstruct :: "digest_fn \<Rightarrow> Share list \<Rightarrow> error + byte list" where
  "reconstruct sha256 shares =
     (if length shares < 2 then Inl NeedAtLeast2Shares
      else case invalidShares sha256 shares of
             Inl e \<Rightarrow> Inl e
           | Inr invalid \<Rightarrow>
               if length invalid > 0 then Inl InvalidOrTamperedShares
               else if card (set (map version shares)) > 1 then Inl IncompatibleShareVersions
               else let secretLength = length (y (shares ! 0))
                    in interpolate_bytes 0 shares [0..<secretLength] (replicate secretLength 0))"

definition generateCompatibleShare ::
    "digest_fn \<Rightarrow> byte list \<Rightarrow> Share list \<Rightarrow> ShareType \<Rightarrow> error + Share" where
  "generateCompatibleShare sha256 privateKey existingShares shareType =
     (if length existingShares < 2 then Inl NeedAtLeast2ExistingShares
      else case invalidShares sha256 existingShares of
             Inl e \<Rightarrow> Inl e
           | Inr invalid \<Rightarrow>
               if length invalid > 0 then Inl InvalidOrTamperedShares
               else if card (set (map version existingShares)) > 1
                 then Inl IncompatibleShareVersions
               else let newShare =
                          \<lparr>type = shareType,
                           x = (if shareType = deviceShare then 1
                                else if shareType = serverShare then 2 else 3),
                           y = replicate (length privateKey) 0,
                           version = version (existingShares ! 0),
                           hash = []\<rparr>
                    in case interpolate_bytes (x newShare) existingShares
                              [0..<length privateKey] (y newShare) of
                         Inl e \<Rightarrow> Inl e
                       | Inr ys \<Rightarrow>
                           let newShare = newShare\<lparr>y := ys\<rparr>
                           in Inr (newShare\<lparr>hash := calculateShareHash sha256 newShare\<rparr>))"

section \<open>Auxiliary notions for the proofs\<close>

text \<open>Multiplication by the generator 2: one shift of \<open>temp\<close> in \<open>multiplyWithoutTables\<close>.\<close>

definition xtime :: "byte \<Rightarrow> byte" where
  "xtime t = (if bit t 7 then push_bit 1 t XOR 0x1d else push_bit 1 t)"

fun xpowers :: "nat \<Rightarrow> byte \<Rightarrow> byte list" where
  "xpowers 0 v = []"
| "xpowers (Suc n) v = v # xpowers n (xtime v)"

text \<open>A share with its integrity tag computed, as \<open>split\<close> and
  \<open>generateCompatibleShare\<close> stamp it.\<close>

definition stamped :: "digest_fn \<Rightarrow> Share \<Rightarrow> Share" where
  "stamped sha256 share = share\<lparr>hash := calculateShareHash sha256 share\<rparr>"

text \<open>
  The polynomial \<open>f(v) = secret_byte + r * v\<close> of one byte position, the payload it gives
  the share with coordinate \<open>i\<close>, and that share before its tag is computed, after \<open>m\<close>
  rounds of the outer loop of \<open>split\<close>.
\<close>

definition poly_eval :: "byte \<Rightarrow> byte \<Rightarrow> byte \<Rightarrow> byte" where
  "poly_eval s r v = s XOR GF256_multiply r v"

definition payload :: "(nat \<Rightarrow> byte) \<Rightarrow> byte list \<Rightarrow> nat \<Rightarrow> nat \<Rightarrow> byte list" where
  "payload rnd privateKey i m =
     map (\<lambda>k. poly_eval (privateKey ! k) (rnd k) (of_nat i)) [0..<m]"

definition share_after :: "(nat \<Rightarrow> byte) \<Rightarrow> byte list \<Rightarrow> nat \<Rightarrow> nat \<Rightarrow> Share" where
  "share_after rnd privateKey i m =
     \<lparr>type = shareTypes ! (i - 1), x = of_nat i,
      y = payload rnd privateKey i m @ replicate (length privateKey - m) 0,
      version = 1, hash = []\<rparr>"

text \<open>The coordinate that \<open>generateCompatibleShare\<close> binds to the target type.\<close>

definition type_coordinate :: "ShareType \<Rightarrow> byte" where
  "type_coordinate shareType =
     (if shareType = deviceShare then 1 else if shareType = serverShare then 2 else 3)"

text \<open>The first 255 powers of the generator, as \<open>initExpTable\<close> computes them.\<close>

definition generator_powers :: "byte list" where
  "generator_powers = [
    1, 2, 4, 8, 16, 32, 64, 128, 29, 58, 116, 232, 205, 135, 19, 38, 76, 152, 45, 90, 180, 117,
    234, 201, 143, 3, 6, 12, 24, 48, 96, 192, 157, 39, 78, 156, 37, 74, 148, 53, 106, 212, 181,
    119, 238, 193, 159, 35, 70, 140, 5, 10, 20, 40, 80, 160, 93, 186, 105, 210, 185, 111, 222,
    161, 95, 190, 97, 194, 153, 47, 94, 188, 101, 202, 137, 15, 30, 60, 120, 240, 253, 231, 211,
    187, 107, 214, 177, 127, 254, 225, 223, 163, 91, 182, 113, 226, 217, 175, 67, 134, 17, 34,
    68, 136, 13, 26, 52, 104, 208, 189, 103, 206, 129, 31, 62, 124, 248, 237, 199, 147, 59, 118,
    236, 197, 151, 51, 102, 204, 133, 23, 46, 92, 184, 109, 218, 169, 79, 158, 33, 66, 132, 21,
    42, 84, 168, 77, 154, 41, 82, 164, 85, 170, 73, 146, 57, 114, 228, 213, 183, 115, 230, 209,
    191, 99, 198, 145, 63, 126, 252, 229, 215, 179, 123, 246, 241, 255, 227, 219, 171, 75, 150,
    49, 98, 196, 149, 55, 110, 220, 165, 87, 174, 65, 130, 25, 50, 100, 200, 141, 7, 14, 28, 56,
    112, 224, 221, 167, 83, 166, 81, 162, 89, 178, 121, 242, 249, 239, 195, 155, 43, 86, 172,
    69, 138, 9, 18, 36, 72, 144, 61, 122, 244, 245, 247, 243, 251, 235, 203, 139, 11, 22, 44,
    88, 176, 125, 250, 233, 207, 131, 27, 54, 108, 216, 173, 71, 142]"

section \<open>Field arithmetic: lemmas\<close>


lemma and_0x80: "(t AND 0x80 \<noteq> 0) = bit t 7" for t :: byte
proof -
  have "(0x80 :: byte) = 2 ^ 7" by simp
  then show ?thesis by (simp only: and_exp_eq_0_iff_not_bit) simp
qed

lemma and_0xff: "t AND 0xff = t" for t :: byte
proof -
  have "(0xff :: byte) = - 1" by simp
  then show ?thesis by (simp only: and.right_neutral)
qed

lemma mwt_step_xtime:
  "mwt_step a i (r, t) = (if bit a i then r XOR t else r, xtime t)"
  by (simp add: mwt_step_def Let_def and_0x80 and_0xff PRIMITIVE_POLY_def xtime_def and_exp_eq_0_iff_not_bit)

lemma xtime_xor: "xtime (a XOR b) = xtime a XOR xtime b"
  by (simp add: xtime_def bit_xor_iff push_bit_xor ac_simps)

lemma xtime_0: "xtime 0 = 0"
  by (simp add: xtime_def)

lemma fold_mwt_xtime:
  "fold (mwt_step a) is (xtime r, xtime t) =
     (xtime (fst (fold (mwt_step a) is (r, t))), xtime (snd (fold (mwt_step a) is (r, t))))"
  by (induction "is" arbitrary: r t) (simp_all add: mwt_step_xtime xtime_xor [symmetric])

lemma mwt_xtime: "multiplyWithoutTables a (xtime b) = xtime (multiplyWithoutTables a b)"
  using fold_mwt_xtime [of a "[0..<8]" 0 b] by (simp add: multiplyWithoutTables_def xtime_0)

lemma fold_mwt_0: "fold (mwt_step a) is (0, 0) = (0, 0)"
  by (induction "is") (simp_all add: mwt_step_xtime xtime_0)

lemma mwt_0: "multiplyWithoutTables a 0 = 0"
  by (simp add: multiplyWithoutTables_def fold_mwt_0)

lemma upt_8: "[0..<8] = [0, 1, 2, 3, 4, 5, 6, 7]"
  by (simp add: upt_rec)

lemma sel_bit: "(if bit a i then r XOR 2 ^ i else r) = r XOR (a AND 2 ^ i)" for a :: byte
  by (rule bit_word_eqI) (auto simp add: bit_simps)

lemma mwt_step_sel: "mwt_step a i (r, 2 ^ i) = (r XOR (a AND 2 ^ i), xtime (2 ^ i))"
  by (simp add: mwt_step_xtime sel_bit)

lemmas mwt_step_sels =
  mwt_step_sel [where i = 0, simplified] mwt_step_sel [where i = 1, simplified]
  mwt_step_sel [where i = 2, simplified] mwt_step_sel [where i = 3, simplified]
  mwt_step_sel [where i = 4, simplified] mwt_step_sel [where i = 5, simplified]
  mwt_step_sel [where i = 6, simplified] mwt_step_sel [where i = 7, simplified]

lemma and_masks:
  "((((((((a AND 1) XOR (a AND 2)) XOR (a AND 4)) XOR (a AND 8)) XOR
      (a AND 16)) XOR (a AND 32)) XOR (a AND 64)) XOR (a AND 128)) = a" for a :: byte
  by (simp add: bit.conj_xor_distrib [symmetric] and_0xff)

lemma mwt_1: "multiplyWithoutTables a 1 = a"
  by (simp add: multiplyWithoutTables_def upt_8 mwt_step_sels xtime_def and_masks)

lemma mwt_2: "multiplyWithoutTables a 2 = xtime a"
  using mwt_xtime [of a 1] by (simp add: mwt_1 xtime_def)



lemma xpowers_numeral: "xpowers (numeral k) v = v # xpowers (pred_numeral k) (xtime v)"
  by (simp add: numeral_eq_Suc)

lemma xpowers_256: "xpowers 256 1 = generator_powers @ [1]"
  by (simp add: xpowers_numeral xtime_def generator_powers_def)

lemma xpowers_length: "length (xpowers n v) = n"
  by (induction n arbitrary: v) simp_all

lemma xpowers_nth: "k < n \<Longrightarrow> xpowers n v ! k = (xtime ^^ k) v"
proof (induction n arbitrary: v k)
  case 0
  then show ?case by simp
next
  case (Suc n)
  then show ?case by (cases k) (simp_all add: funpow_swap1)
qed

lemma xpowers_snoc: "xpowers (Suc n) v = xpowers n v @ [(xtime ^^ n) v]"
  by (induction n arbitrary: v) (simp_all add: funpow_swap1)

lemma length_generator_powers: "length generator_powers = 255"
  by (simp add: generator_powers_def)

lemma xpowers_255: "xpowers 255 1 = generator_powers"
proof -
  have "xpowers (Suc 255) 1 = xpowers 255 1 @ [(xtime ^^ 255) 1]"
    by (rule xpowers_snoc)
  then have "generator_powers @ [1] = xpowers 255 1 @ [(xtime ^^ 255) 1]"
    by (simp add: xpowers_256)
  then show ?thesis
    by (simp add: append_eq_append_conv xpowers_length length_generator_powers)
qed

lemma xtime_period: "(xtime ^^ 255) 1 = 1"
proof -
  have "xpowers 256 1 ! 255 = (xtime ^^ 255) 1"
    by (rule xpowers_nth) simp
  then show ?thesis
    by (simp add: xpowers_256 nth_append length_generator_powers)
qed

lemma distinct_generator_powers: "distinct generator_powers"
proof -
  have "distinct (map unat generator_powers)"
    by (simp add: generator_powers_def)
  then show ?thesis
    by (simp add: distinct_map)
qed

lemma zero_notin_generator_powers: "0 \<notin> set generator_powers"
  by (simp add: generator_powers_def)


subsection \<open>The tables\<close>

lemma exp_fold:
  "n \<le> length table \<Longrightarrow>
   fold (\<lambda>i (table, v). (table[i := v], multiplyWithoutTables v 2)) [0..<n] (table, v0) =
     (xpowers n v0 @ drop n table, (xtime ^^ n) v0)"
proof (induction n)
  case 0
  then show ?case by simp
next
  case (Suc n)
  then have "n < length table" by simp
  then have "(xpowers n v0 @ drop n table)[n := (xtime ^^ n) v0] =
      xpowers n v0 @ [(xtime ^^ n) v0] @ drop (Suc n) table"
    by (simp add: list_update_append xpowers_length Cons_nth_drop_Suc [symmetric])
  with Suc show ?case
    by (simp add: mwt_2 xpowers_snoc del: xpowers.simps)
qed

lemma EXP_TABLE_eq: "EXP_TABLE = generator_powers @ [1]"
proof -
  have "fst (fold (\<lambda>i (table, v). (table[i := v], multiplyWithoutTables v 2))
           [0..<255] (replicate 256 0, 1)) = generator_powers @ [0]"
    by (simp add: exp_fold xpowers_255)
  moreover have "generator_powers ! 0 = 1"
    by (simp add: generator_powers_def)
  ultimately show ?thesis
    by (simp add: EXP_TABLE_def initExpTable_def Let_def nth_append
        list_update_append length_generator_powers)
qed

lemma generator_powers_nth: "k < 255 \<Longrightarrow> generator_powers ! k = (xtime ^^ k) 1"
  using xpowers_nth [of k 255 1] by (simp only: xpowers_255)

lemma EXP_TABLE_nth: "k < 255 \<Longrightarrow> EXP_TABLE ! k = (xtime ^^ k) 1"
  by (simp add: EXP_TABLE_eq nth_append length_generator_powers generator_powers_nth)

lemma xtime_pow_inj:
  assumes "i < 255" "j < 255" "(xtime ^^ i) 1 = (xtime ^^ j) 1"
  shows "i = j"
proof -
  have "generator_powers ! i = generator_powers ! j"
    using assms by (simp only: generator_powers_nth)
  then show ?thesis
    using assms(1,2) distinct_generator_powers
    by (simp only: nth_eq_iff_index_eq length_generator_powers)
qed

lemma xtime_pow_nonzero:
  assumes "k < 255"
  shows "(xtime ^^ k) 1 \<noteq> 0"
proof -
  have "generator_powers ! k \<in> set generator_powers"
    using assms by (intro nth_mem) (simp only: length_generator_powers)
  then show ?thesis
    using zero_notin_generator_powers assms by (metis generator_powers_nth)
qed

lemma log_fold:
  assumes "length table = 256"
    and "\<forall>i<n. \<forall>j<n. (xtime ^^ i) v0 = (xtime ^^ j) v0 \<longrightarrow> i = j"
  shows "\<exists>T. fold (\<lambda>i (table, v). (table[unat v := i], multiplyWithoutTables v 2))
            [0..<n] (table, v0) = (T, (xtime ^^ n) v0) \<and> length T = 256 \<and>
          (\<forall>k<n. T ! unat ((xtime ^^ k) v0) = k)"
  using assms(2)
proof (induction n)
  case 0
  then show ?case by (simp add: assms(1))
next
  case (Suc n)
  have "\<forall>i<n. \<forall>j<n. (xtime ^^ i) v0 = (xtime ^^ j) v0 \<longrightarrow> i = j"
    using Suc.prems less_SucI by blast
  from Suc.IH [OF this] obtain T
    where T1: "fold (\<lambda>i (table, v). (table[unat v := i], multiplyWithoutTables v 2))
            [0..<n] (table, v0) = (T, (xtime ^^ n) v0)"
      and T2: "length T = 256"
      and T3: "\<forall>k<n. T ! unat ((xtime ^^ k) v0) = k"
    by blast
  define p where "p = unat ((xtime ^^ n) v0)"
  have lt: "p < 256"
    using unsigned_less [of "(xtime ^^ n) v0", where ?'a = nat] by (simp add: p_def)
  have upd: "T[p := n] ! unat ((xtime ^^ k) v0) = k" if "k < Suc n" for k
  proof (cases "k = n")
    case True
    then show ?thesis using lt T2 by (simp add: p_def)
  next
    case False
    then have kn: "k < n" using that by simp
    have "(xtime ^^ k) v0 \<noteq> (xtime ^^ n) v0"
      using Suc.prems False that by blast
    then have "unat ((xtime ^^ k) v0) \<noteq> p"
      by (simp add: p_def word_unat_eq_iff)
    then show ?thesis using T3 kn by simp
  qed
  have "fold (\<lambda>i (table, v). (table[unat v := i], multiplyWithoutTables v 2))
            [0..<Suc n] (table, v0) = (T[p := n], (xtime ^^ Suc n) v0)"
    using T1 by (simp add: mwt_2 p_def)
  moreover have "length (T[p := n]) = 256"
    using T2 by simp
  ultimately show ?case
    using upd by blast
qed

lemma LOG_TABLE_nth:
  assumes "k < 255"
  shows "LOG_TABLE ! unat ((xtime ^^ k) 1) = k"
proof -
  have "length (replicate 256 (0::nat)) = 256"
    by (simp only: length_replicate)
  moreover have "\<forall>i<255. \<forall>j<255. (xtime ^^ i) 1 = (xtime ^^ j) 1 \<longrightarrow> i = j"
    using xtime_pow_inj by blast
  ultimately obtain T where "fold (\<lambda>i (table, v). (table[unat v := i], multiplyWithoutTables v 2))
            [0..<255] (replicate 256 0, 1) = (T, (xtime ^^ 255) 1)"
      and "\<forall>k<255. T ! unat ((xtime ^^ k) 1) = k"
    using log_fold [of "replicate 256 0" 255 1] by blast
  then show ?thesis
    using assms by (simp only: LOG_TABLE_def initLogTable_def fst_conv)
qed

lemma nonzero_is_power:
  assumes "a \<noteq> 0"
  shows "\<exists>k<255. a = (xtime ^^ k) 1"
proof -
  have sub: "set generator_powers \<subseteq> UNIV - {0}"
    using zero_notin_generator_powers by auto
  have "card (set generator_powers) = 255"
    using distinct_card [OF distinct_generator_powers] by (simp add: length_generator_powers)
  moreover have "card (UNIV - {0 :: byte}) = 255"
    by (simp add: card_Diff_singleton card_word)
  ultimately have "set generator_powers = UNIV - {0}"
    using sub by (intro card_subset_eq) simp_all
  with assms have "a \<in> set generator_powers" by simp
  then obtain k where "k < 255" "generator_powers ! k = a"
    by (auto simp add: in_set_conv_nth length_generator_powers)
  then show ?thesis
    using xpowers_nth [of k 255 1] by (auto simp add: xpowers_255)
qed

lemma log_props:
  assumes "a \<noteq> 0"
  shows "LOG_TABLE ! unat a < 255" and "(xtime ^^ (LOG_TABLE ! unat a)) 1 = a"
proof -
  obtain k where "k < 255" "a = (xtime ^^ k) 1"
    using nonzero_is_power [OF assms] by blast
  then show "LOG_TABLE ! unat a < 255" and "(xtime ^^ (LOG_TABLE ! unat a)) 1 = a"
    by (simp_all add: LOG_TABLE_nth)
qed

lemma xtime_pow_mod: "(xtime ^^ (k mod 255)) 1 = (xtime ^^ k) 1"
proof (induction k rule: less_induct)
  case (less k)
  show ?case
  proof (cases "k < 255")
    case True
    then show ?thesis by simp
  next
    case False
    then have k: "k = (k - 255) + 255" by simp
    have "(xtime ^^ k) 1 = (xtime ^^ (k - 255)) ((xtime ^^ 255) 1)"
      by (subst k) (simp only: funpow_add o_apply)
    also have "\<dots> = (xtime ^^ ((k - 255) mod 255)) 1"
      using less [of "k - 255"] False by (simp add: xtime_period)
    also have "(k - 255) mod 255 = k mod 255"
      using False by (simp add: le_mod_geq)
    finally show ?thesis by simp
  qed
qed

lemma EXP_TABLE_mod: "EXP_TABLE ! (k mod 255) = (xtime ^^ k) 1"
  by (simp add: EXP_TABLE_nth xtime_pow_mod)

subsection \<open>Laws of the table multiplication\<close>

lemma xtime_funpow_0: "(xtime ^^ n) 0 = 0"
  by (induction n) (simp_all add: xtime_0)

lemma xtime_funpow_xor: "(xtime ^^ n) (a XOR b) = (xtime ^^ n) a XOR (xtime ^^ n) b"
  by (induction n) (simp_all add: xtime_xor)

lemma multiply_funpow:
  assumes "a \<noteq> 0"
  shows "GF256_multiply a b = (xtime ^^ (LOG_TABLE ! unat a)) b"
proof (cases "b = 0")
  case True
  then show ?thesis by (simp add: GF256_multiply_def xtime_funpow_0)
next
  case False
  have "GF256_multiply a b = (xtime ^^ (LOG_TABLE ! unat a + LOG_TABLE ! unat b)) 1"
    using assms False by (simp add: GF256_multiply_def Let_def EXP_TABLE_mod)
  also have "\<dots> = (xtime ^^ (LOG_TABLE ! unat a)) ((xtime ^^ (LOG_TABLE ! unat b)) 1)"
    by (simp only: funpow_add o_apply)
  finally show ?thesis
    using False by (simp add: log_props)
qed

lemma multiply_commute: "GF256_multiply a b = GF256_multiply b a"
  by (simp add: GF256_multiply_def Let_def add.commute disj_commute)

lemma multiply_0_left: "GF256_multiply 0 b = 0"
  by (simp add: GF256_multiply_def)

lemma multiply_0_right: "GF256_multiply a 0 = 0"
  by (simp add: GF256_multiply_def)

lemma multiply_xor_right:
  "GF256_multiply a (b XOR c) = GF256_multiply a b XOR GF256_multiply a c"
proof (cases "a = 0")
  case True
  then show ?thesis by (simp add: multiply_0_left)
next
  case False
  then show ?thesis by (simp add: multiply_funpow xtime_funpow_xor)
qed

lemma multiply_xor_left:
  "GF256_multiply (a XOR b) c = GF256_multiply a c XOR GF256_multiply b c"
  using multiply_xor_right [of c a b] by (simp add: multiply_commute)

lemma LOG_TABLE_1: "LOG_TABLE ! unat (1 :: byte) = 0"
  using LOG_TABLE_nth [of 0] by simp

lemma multiply_1_left: "GF256_multiply 1 b = b"
  using multiply_funpow [of 1 b] LOG_TABLE_1 by simp

lemma multiply_1_right: "GF256_multiply a 1 = a"
  by (simp add: multiply_commute [of a 1] multiply_1_left)

lemma multiply_nonzero:
  assumes "a \<noteq> 0" "b \<noteq> 0"
  shows "GF256_multiply a b \<noteq> 0"
    and "LOG_TABLE ! unat (GF256_multiply a b) = (LOG_TABLE ! unat a + LOG_TABLE ! unat b) mod 255"
proof -
  let ?k = "(LOG_TABLE ! unat a + LOG_TABLE ! unat b) mod 255"
  have k: "?k < 255" by simp
  have eq: "GF256_multiply a b = (xtime ^^ ?k) 1"
    using assms by (simp add: GF256_multiply_def Let_def EXP_TABLE_nth)
  show "GF256_multiply a b \<noteq> 0"
    unfolding eq using k by (rule xtime_pow_nonzero)
  show "LOG_TABLE ! unat (GF256_multiply a b) = ?k"
    unfolding eq using k by (rule LOG_TABLE_nth)
qed

lemma multiply_assoc:
  "GF256_multiply (GF256_multiply a b) c = GF256_multiply a (GF256_multiply b c)"
proof (cases "a = 0 \<or> b = 0 \<or> c = 0")
  case True
  then show ?thesis by (auto simp add: multiply_0_left multiply_0_right)
next
  case False
  then have nz: "a \<noteq> 0" "b \<noteq> 0" "c \<noteq> 0" by simp_all
  have "GF256_multiply (GF256_multiply a b) c =
      EXP_TABLE ! (((LOG_TABLE ! unat a + LOG_TABLE ! unat b) mod 255 + LOG_TABLE ! unat c) mod 255)"
    using multiply_nonzero [OF nz(1,2)] nz(3)
    by (simp add: GF256_multiply_def [of "GF256_multiply a b" c] Let_def)
  moreover have "GF256_multiply a (GF256_multiply b c) =
      EXP_TABLE ! ((LOG_TABLE ! unat a + (LOG_TABLE ! unat b + LOG_TABLE ! unat c) mod 255) mod 255)"
    using multiply_nonzero [OF nz(2,3)] nz(1)
    by (simp add: GF256_multiply_def [of a "GF256_multiply b c"] Let_def)
  moreover have "((LOG_TABLE ! unat a + LOG_TABLE ! unat b) mod 255 + LOG_TABLE ! unat c) mod 255 =
      (LOG_TABLE ! unat a + (LOG_TABLE ! unat b + LOG_TABLE ! unat c) mod 255) mod 255"
    by (simp add: mod_simps add.assoc)
  ultimately show ?thesis by simp
qed

lemma inverse_nonzero:
  assumes "a \<noteq> 0"
  shows "\<exists>v. GF256_inverse a = Inr v \<and> v \<noteq> 0 \<and> GF256_multiply a v = 1"
proof (cases "a = 1")
  case True
  then show ?thesis by (simp add: GF256_inverse_def multiply_1_left)
next
  case False
  let ?l = "LOG_TABLE ! unat a"
  let ?v = "EXP_TABLE ! ((255 - ?l) mod 255)"
  have l: "?l < 255" using assms by (rule log_props)
  have v: "?v = (xtime ^^ ((255 - ?l) mod 255)) 1"
    by (simp add: EXP_TABLE_nth)
  have "GF256_multiply a ?v = (xtime ^^ ?l) ?v"
    using assms by (rule multiply_funpow)
  also have "\<dots> = (xtime ^^ (?l + (255 - ?l) mod 255)) 1"
    by (simp only: v funpow_add o_apply)
  also have "\<dots> = (xtime ^^ ((?l + (255 - ?l) mod 255) mod 255)) 1"
    by (simp only: xtime_pow_mod)
  also have "(?l + (255 - ?l) mod 255) mod 255 = 0"
    using l by (simp add: mod_simps)
  finally have "GF256_multiply a ?v = 1" by simp
  moreover have "?v \<noteq> 0"
    unfolding v by (rule xtime_pow_nonzero) simp
  ultimately show ?thesis
    using assms False by (simp add: GF256_inverse_def Let_def)
qed


subsection \<open>The two multiplications agree\<close>

lemma fold_mwt_zero_left: "fst (fold (mwt_step 0) is (r, t)) = r"
  by (induction "is" arbitrary: r t) (simp_all add: mwt_step_xtime)

lemma mwt_zero_left: "multiplyWithoutTables 0 b = 0"
  by (simp add: multiplyWithoutTables_def fold_mwt_zero_left)

lemma mwt_funpow: "multiplyWithoutTables a ((xtime ^^ n) b) = (xtime ^^ n) (multiplyWithoutTables a b)"
  by (induction n) (simp_all add: mwt_xtime)

lemma multiply_eq_mwt: "GF256_multiply a b = multiplyWithoutTables a b"
proof (cases "b = 0")
  case True
  then show ?thesis by (simp add: multiply_0_right mwt_0)
next
  case False
  have "multiplyWithoutTables a b = multiplyWithoutTables a ((xtime ^^ (LOG_TABLE ! unat b)) 1)"
    using False by (simp add: log_props)
  also have "\<dots> = (xtime ^^ (LOG_TABLE ! unat b)) a"
    by (simp only: mwt_funpow mwt_1)
  also have "\<dots> = GF256_multiply b a"
    using False by (simp add: multiply_funpow)
  finally show ?thesis
    by (simp add: multiply_commute)
qed

text \<open>
  C9. For all bytes \<open>a\<close> and \<open>b\<close>, the table-based \<open>GF256.multiply(a, b)\<close> returns the same
  field element as the shift-and-XOR \<open>GF256.multiplyWithoutTables(a, b)\<close>, the tables being
  the ones \<open>initLogTable\<close> and \<open>initExpTable\<close> build.
\<close>

theorem C9_multiply_refines_multiplyWithoutTables:
  "GF256_multiply a b = multiplyWithoutTables a b
   \<and> LOG_TABLE = initLogTable \<and> EXP_TABLE = initExpTable"
  by (simp add: multiply_eq_mwt LOG_TABLE_def EXP_TABLE_def)

subsection \<open>The power\<close>

lemma js_round_exact: "n \<le> 2 ^ 53 \<Longrightarrow> js_round n = Some n"
  by (simp add: js_round_def)

lemma js_round_nonneg:
  assumes "0 \<le> n" and "js_round n = Some m"
  shows "0 \<le> m"
proof (cases "n \<le> 2 ^ 53")
  case True
  then show ?thesis using assms by (simp add: js_round_def)
next
  case False
  define k where "k = width n - 53"
  have "0 \<le> n div 2 ^ k"
    using assms(1) by (simp add: pos_imp_zdiv_nonneg_iff)
  then have "0 \<le> (if 2 ^ k < 2 * (n mod 2 ^ k) \<or> (2 * (n mod 2 ^ k) = 2 ^ k \<and> odd (n div 2 ^ k))
      then n div 2 ^ k + 1 else n div 2 ^ k) * 2 ^ k"
    by simp
  then show ?thesis
    using assms(2) False by (simp add: js_round_def Let_def k_def split: if_splits)
qed

lemma js_times_exact:
  assumes "\<bar>a * b\<bar> \<le> 2 ^ 53"
  shows "js_times a b = Some (a * b)"
proof -
  have "sgn (a * b) * \<bar>a * b\<bar> = a * b"
    by (simp add: mult.commute [of "sgn (a * b)"] abs_mult_sgn del: abs_mult sgn_mult)
  then show ?thesis
    using assms by (simp add: js_times_def js_round_exact del: abs_mult sgn_mult)
qed

lemma js_times_sign:
  assumes "js_times a b = Some p" and "0 \<le> a"
  shows "0 < b \<longrightarrow> 0 \<le> p" and "b < 0 \<longrightarrow> p \<le> 0"
proof -
  obtain m where m: "js_round \<bar>a * b\<bar> = Some m" "p = sgn (a * b) * m"
    using assms(1) by (auto simp add: js_times_def)
  have "0 \<le> m"
    using js_round_nonneg [OF _ m(1)] by simp
  then show "0 < b \<longrightarrow> 0 \<le> p" and "b < 0 \<longrightarrow> p \<le> 0"
    using assms(2) m(2)
    by (auto simp add: sgn_if mult_nonneg_nonneg mult_nonneg_nonpos
        zero_less_mult_iff mult_less_0_iff)
qed

lemma EXP_TABLE_0: "EXP_TABLE ! 0 = 1"
  using EXP_TABLE_nth [of 0] by simp

lemma js_remainder_nonneg: "0 \<le> p \<Longrightarrow> js_remainder p 255 = p mod 255"
  by (simp add: js_remainder_def sgn_if)

lemma js_remainder_nonpos:
  assumes "p \<le> 0"
  shows "0 \<le> js_remainder p 255 \<longleftrightarrow> p mod 255 = 0"
    and "p mod 255 = 0 \<Longrightarrow> js_remainder p 255 = 0"
proof -
  have dvd: "\<bar>p\<bar> mod 255 = 0 \<longleftrightarrow> p mod 255 = 0"
    by (simp add: mod_eq_0_iff_dvd)
  have "0 \<le> \<bar>p\<bar> mod 255" by simp
  then show "0 \<le> js_remainder p 255 \<longleftrightarrow> p mod 255 = 0"
    using assms dvd by (auto simp add: js_remainder_def sgn_if)
  show "p mod 255 = 0 \<Longrightarrow> js_remainder p 255 = 0"
    using dvd by (simp add: js_remainder_def)
qed

lemma pow_general:
  assumes "base \<noteq> 0" and "e \<noteq> 0"
  shows "GF256_pow base e =
     (case js_times (int (LOG_TABLE ! unat base)) e of
        None \<Rightarrow> 0
      | Some p \<Rightarrow>
          if 0 < e then EXP_TABLE ! nat (p mod 255)
          else if p mod 255 = 0 then 1 else 0)"
proof (cases "js_times (int (LOG_TABLE ! unat base)) e")
  case None
  then show ?thesis using assms by (simp add: GF256_pow_def Let_def)
next
  case (Some p)
  have L: "0 \<le> int (LOG_TABLE ! unat base)" by simp
  show ?thesis
  proof (cases "0 < e")
    case True
    then have "0 \<le> p" using js_times_sign(1) [OF Some L] by simp
    then show ?thesis
      using assms Some True by (simp add: GF256_pow_def Let_def js_remainder_nonneg)
  next
    case False
    then have neg: "e < 0" using assms(2) by simp
    then have p: "p \<le> 0" using js_times_sign(2) [OF Some L] by simp
    show ?thesis
      using assms Some False js_remainder_nonpos [OF p]
      by (simp add: GF256_pow_def Let_def EXP_TABLE_0)
  qed
qed

lemma pow_exact:
  assumes "base \<noteq> 0" and "0 < e" and "int (LOG_TABLE ! unat base) * e \<le> 2 ^ 53"
  shows "GF256_pow base e = EXP_TABLE ! nat ((int (LOG_TABLE ! unat base) * e) mod 255)"
proof -
  have "0 \<le> int (LOG_TABLE ! unat base) * e"
    using assms(2) by simp
  then have "\<bar>int (LOG_TABLE ! unat base) * e\<bar> \<le> 2 ^ 53"
    using assms(3) by simp
  then have "js_times (int (LOG_TABLE ! unat base)) e = Some (int (LOG_TABLE ! unat base) * e)"
    by (rule js_times_exact)
  then show ?thesis
    using assms(1,2) by (simp add: pow_general)
qed

lemma pow_0: "a \<noteq> 0 \<Longrightarrow> GF256_pow a 0 = 1"
  by (simp add: GF256_pow_def)

lemma pow_1:
  assumes "a \<noteq> 0"
  shows "GF256_pow a 1 = a"
proof -
  have l: "LOG_TABLE ! unat a < 255" using assms by (rule log_props)
  then have "int (LOG_TABLE ! unat a) * 1 \<le> 2 ^ 53" by simp
  from pow_exact [OF assms _ this]
  have "GF256_pow a 1 = EXP_TABLE ! (LOG_TABLE ! unat a)"
    using l by (simp add: nat_mod_distrib)
  then show ?thesis
    using assms l by (simp add: EXP_TABLE_nth log_props)
qed


lemma generator_power_values:
  "(xtime ^^ 1) 1 = (2 :: byte)" "(xtime ^^ 25) 1 = (3 :: byte)"
  "(xtime ^^ 3) 1 = (8 :: byte)" "(xtime ^^ 50) 1 = (5 :: byte)"
  using generator_powers_nth [of 1] generator_powers_nth [of 25]
    generator_powers_nth [of 3] generator_powers_nth [of 50]
  by (simp_all add: generator_powers_def del: funpow.simps)

lemma LOG_TABLE_values: "LOG_TABLE ! 2 = 1" "LOG_TABLE ! 3 = 25"
  using LOG_TABLE_nth [of 1] LOG_TABLE_nth [of 25]
  unfolding generator_power_values by simp_all

lemma EXP_TABLE_values: "EXP_TABLE ! 3 = 8" "EXP_TABLE ! 50 = 5"
  using EXP_TABLE_nth [of 3] EXP_TABLE_nth [of 50]
  unfolding generator_power_values by simp_all

lemma js_times_rounded: "js_times 25 9007199254740991 = Some 225179981368524768"
  by code_simp

text \<open>
  C6 (as the code has it). For every base byte and every integer exponent that a
  JavaScript number holds: \<open>GF256.pow\<close> returns zero if the base is zero, for every
  exponent, zero included; for a nonzero base it returns one if the exponent is zero; for a
  positive exponent whose product with \<open>log[base]\<close> is at most \<open>2\<^sup>5\<^sup>3\<close>, so that the double
  multiplication is exact, it returns \<open>exp[(log[base] * exp) mod 255]\<close>. In general, for a
  nonzero exponent, with \<open>p\<close> the product as the double multiplication rounds it: zero if
  \<open>p\<close> is an infinity, \<open>exp[p mod 255]\<close> for a positive exponent, and for a negative exponent
  one if 255 divides \<open>p\<close> and zero otherwise.
\<close>

theorem C6_pow_cases:
  assumes "js_integer e"
  shows "GF256_pow 0 e = 0
    \<and> (base \<noteq> 0 \<longrightarrow> GF256_pow base 0 = 1)
    \<and> (base \<noteq> 0 \<and> 0 < e \<and> int (LOG_TABLE ! unat base) * e \<le> 2 ^ 53 \<longrightarrow>
         GF256_pow base e = EXP_TABLE ! nat ((int (LOG_TABLE ! unat base) * e) mod 255))
    \<and> (base \<noteq> 0 \<and> e \<noteq> 0 \<longrightarrow>
         GF256_pow base e =
           (case js_times (int (LOG_TABLE ! unat base)) e of
              None \<Rightarrow> 0
            | Some p \<Rightarrow>
                if 0 < e then EXP_TABLE ! nat (p mod 255)
                else if p mod 255 = 0 then 1 else 0))"
  using pow_0 [of base] pow_exact [of base e] pow_general [of base e]
  by (simp add: GF256_pow_def)

theorem C6_pow_cases_witness:
  "GF256_pow 0 5 = 0
   \<and> GF256_pow 3 0 = 1
   \<and> GF256_pow 3 2 = 5
   \<and> GF256_pow 3 9007199254740991 = 8
   \<and> GF256_pow 2 (- 1) = 0
   \<and> GF256_pow 2 (- 255) = 1"
proof (intro conjI)
  have int5: "js_integer 5" "js_integer 0" "js_integer 2" "js_integer 9007199254740991"
    "js_integer (- 1)" "js_integer (- 255)"
    by (simp_all add: js_integer_def js_round_def)
  show "GF256_pow 0 5 = 0"
    using C6_pow_cases [OF int5(1), of 0] by simp
  show "GF256_pow 3 0 = 1"
    using C6_pow_cases [OF int5(2), of 3] by simp
  show "GF256_pow 3 2 = 5"
    using C6_pow_cases [OF int5(3), of 3] by (simp add: LOG_TABLE_values EXP_TABLE_values)
  show "GF256_pow 3 9007199254740991 = 8"
    using C6_pow_cases [OF int5(4), of 3]
    by (simp add: LOG_TABLE_values EXP_TABLE_values js_times_rounded)
  show "GF256_pow 2 (- 1) = 0"
    using C6_pow_cases [OF int5(5), of 2]
    by (simp add: LOG_TABLE_values js_times_exact)
  show "GF256_pow 2 (- 255) = 1"
    using C6_pow_cases [OF int5(6), of 2]
    by (simp add: LOG_TABLE_values js_times_exact)
qed

text \<open>C6 as stated asks for \<open>pow(0, 0) = 1\<close>; the guard on the base comes first and the
  code returns 0.\<close>

theorem C6_pow_zero_zero: "GF256_pow 0 0 = 0 \<and> GF256_pow 0 0 \<noteq> 1"
  by (simp add: GF256_pow_def)

text \<open>
  C8. \<open>GF256.inverse(a)\<close> fails with a division by zero when \<open>a = 0\<close>, returns 1 when
  \<open>a = 1\<close> and \<open>exp[(255 - log[a]) mod 255]\<close> otherwise; for every nonzero \<open>a\<close> the result
  \<open>v\<close> satisfies \<open>multiply(a, v) = 1\<close>.
\<close>

theorem C8_inverse_cases:
  "GF256_inverse a =
     (if a = 0 then Inl DivisionByZero
      else if a = 1 then Inr 1
      else Inr (EXP_TABLE ! ((255 - LOG_TABLE ! unat a) mod 255)))
   \<and> (a \<noteq> 0 \<longrightarrow> (\<exists>v. GF256_inverse a = Inr v \<and> GF256_multiply a v = 1))"
  using inverse_nonzero [of a] by (auto simp add: GF256_inverse_def Let_def)

theorem C8_inverse_witness:
  "(2 :: byte) \<noteq> 0 \<and> (\<exists>v. GF256_inverse 2 = Inr v \<and> GF256_multiply 2 v = 1)"
proof -
  have nz: "(2 :: byte) \<noteq> 0" by simp
  with C8_inverse_cases [of 2] show ?thesis by blast
qed

subsection \<open>Hexadecimal digits\<close>

lemma unhex_hex_digit_all: "list_all (\<lambda>n. unhex (hex_digit n) = Some n) [0..<16]"
  by code_simp

lemma unhex_hex_digit: "n < 16 \<Longrightarrow> unhex (hex_digit n) = Some n"
  using unhex_hex_digit_all by (simp add: list_all_iff)

lemma Buffer_from_hex_encode: "Buffer_from_hex (hex_encode bs) = bs"
proof (induction bs)
  case Nil
  then show ?case by (simp add: hex_encode_def)
next
  case (Cons b bs)
  have "unat b div 16 < 16"
    using unsigned_less [of b, where ?'a = nat] by (simp add: less_mult_imp_div_less)
  moreover have "(of_nat (16 * (unat b div 16) + unat b mod 16) :: byte) = b"
    by simp
  ultimately show ?case
    using Cons by (simp add: hex_encode_def unhex_hex_digit)
qed

lemma length_digest_bytes: "length (digest_bytes d) = 32"
  by (simp add: digest_bytes_def)

lemma calculateShareHash_nonempty: "calculateShareHash sha256 share \<noteq> []"
proof -
  obtain b bs where "digest_bytes (sha256 ([x share] @ y share @ map of_char (type_name (type share)))) = b # bs"
    using length_digest_bytes [of "sha256 ([x share] @ y share @ map of_char (type_name (type share)))"]
    by (cases "digest_bytes (sha256 ([x share] @ y share @ map of_char (type_name (type share))))") simp_all
  then show ?thesis
    by (simp add: calculateShareHash_def hex_encode_def)
qed

lemma calculateShareHash_hash_update:
  "calculateShareHash sha256 (share\<lparr>hash := h\<rparr>) = calculateShareHash sha256 share"
  by (simp add: calculateShareHash_def)

lemma Buffer_from_hex_calculateShareHash:
  "length (Buffer_from_hex (calculateShareHash sha256 share)) = 32"
  by (simp add: calculateShareHash_def Buffer_from_hex_encode length_digest_bytes)

lemma verifyShare_stamped:
  "hash share = calculateShareHash sha256 share \<Longrightarrow> verifyShare sha256 share = Inr True"
  using calculateShareHash_nonempty [of sha256 share]
  by (simp add: verifyShare_def timingSafeEqual_def)

lemma verifyShare_empty: "hash share = [] \<Longrightarrow> verifyShare sha256 share = Inr False"
  by (simp add: verifyShare_def)

lemma verifyShare_length_mismatch:
  "hash share \<noteq> [] \<Longrightarrow> length (Buffer_from_hex (hash share)) \<noteq> 32 \<Longrightarrow>
   verifyShare sha256 share = Inl InputBuffersMustHaveSameByteLength"
  by (simp add: verifyShare_def timingSafeEqual_def Buffer_from_hex_calculateShareHash)

lemma verifyShare_compare:
  "hash share \<noteq> [] \<Longrightarrow> length (Buffer_from_hex (hash share)) = 32 \<Longrightarrow>
   verifyShare sha256 share =
     Inr (Buffer_from_hex (calculateShareHash sha256 share) = Buffer_from_hex (hash share))"
  by (simp add: verifyShare_def timingSafeEqual_def Buffer_from_hex_calculateShareHash)

text \<open>
  C7, at the failing input. A share whose stored tag is the two characters \<open>ab\<close> decodes to
  one byte; the recomputed tag decodes to 32 bytes, and \<open>crypto.timingSafeEqual\<close> throws
  instead of \<open>verifyShare\<close> returning false.
\<close>

theorem C7_verifyShare_throws_on_short_tag:
  "\<forall>sha256. verifyShare sha256
      \<lparr>type = deviceShare, x = 1, y = [0x41, 0x42], version = 1, hash = ''ab''\<rparr>
    = Inl InputBuffersMustHaveSameByteLength"
  by (simp add: verifyShare_length_mismatch unhex_def)

subsection \<open>The interpolation loops\<close>

lemma xor_eq_0: "a XOR b = 0 \<longleftrightarrow> a = b" for a b :: byte
proof
  assume "a XOR b = 0"
  then have "a XOR (a XOR b) = a XOR 0" by simp
  then show "a = b" by (simp add: xor.assoc [symmetric])
next
  assume "a = b"
  then show "a XOR b = 0" by simp
qed

lemma subtract_eq_0: "GF256_subtract a b = 0 \<longleftrightarrow> a = b"
  by (simp add: GF256_subtract_def GF256_add_def xor_eq_0)

lemma inverse_0: "GF256_inverse 0 = Inl DivisionByZero"
  by (simp add: GF256_inverse_def)

lemma lagrange_term_ok:
  "\<forall>j\<in>set js. j \<noteq> i \<longrightarrow> x (shares ! j) \<noteq> x (shares ! i) \<Longrightarrow>
   \<exists>t. lagrange_term at shares i js trm = Inr t"
proof (induction js arbitrary: trm)
  case Nil
  then show ?case by simp
next
  case (Cons j js)
  show ?case
  proof (cases "i = j")
    case True
    then show ?thesis using Cons by simp
  next
    case False
    then have "GF256_subtract (x (shares ! i)) (x (shares ! j)) \<noteq> 0"
      using Cons.prems by (auto simp add: subtract_eq_0)
    then obtain v where "GF256_inverse (GF256_subtract (x (shares ! i)) (x (shares ! j))) = Inr v"
      using inverse_nonzero by blast
    then show ?thesis using False Cons by (simp add: Let_def)
  qed
qed

lemma lagrange_term_fails:
  "\<exists>j\<in>set js. j \<noteq> i \<and> x (shares ! j) = x (shares ! i) \<Longrightarrow>
   lagrange_term at shares i js trm = Inl DivisionByZero"
proof (induction js arbitrary: trm)
  case Nil
  then show ?case by simp
next
  case (Cons j js)
  show ?case
  proof (cases "i = j")
    case True
    then show ?thesis using Cons by auto
  next
    case False
    show ?thesis
    proof (cases "x (shares ! j) = x (shares ! i)")
      case True
      then have "GF256_subtract (x (shares ! i)) (x (shares ! j)) = 0"
        by (simp add: subtract_eq_0)
      then show ?thesis using False by (simp add: Let_def inverse_0)
    next
      case neq: False
      then have "GF256_subtract (x (shares ! i)) (x (shares ! j)) \<noteq> 0"
        by (auto simp add: subtract_eq_0)
      then obtain v where "GF256_inverse (GF256_subtract (x (shares ! i)) (x (shares ! j))) = Inr v"
        using inverse_nonzero by blast
      moreover have "\<exists>j\<in>set js. j \<noteq> i \<and> x (shares ! j) = x (shares ! i)"
        using Cons.prems neq by auto
      ultimately show ?thesis using False Cons.IH by (simp add: Let_def)
    qed
  qed
qed

lemma lagrange_sum_ok:
  "\<forall>i\<in>set is. \<forall>j<length shares. j \<noteq> i \<longrightarrow> x (shares ! j) \<noteq> x (shares ! i) \<Longrightarrow>
   \<exists>r. lagrange_sum at shares byteIndex is result = Inr r"
proof (induction "is" arbitrary: result)
  case Nil
  then show ?case by simp
next
  case (Cons i "is")
  have "\<forall>j\<in>set [0..<length shares]. j \<noteq> i \<longrightarrow> x (shares ! j) \<noteq> x (shares ! i)"
    using Cons.prems by simp
  from lagrange_term_ok [OF this]
  obtain t where "lagrange_term at shares i [0..<length shares]
      (byte_at (y (shares ! i)) byteIndex) = Inr t"
    by blast
  then show ?case using Cons by simp
qed

lemma lagrange_sum_fails:
  "\<exists>i\<in>set is. \<exists>j<length shares. j \<noteq> i \<and> x (shares ! j) = x (shares ! i) \<Longrightarrow>
   lagrange_sum at shares byteIndex is result = Inl DivisionByZero"
proof (induction "is" arbitrary: result)
  case Nil
  then show ?case by simp
next
  case (Cons i "is")
  show ?case
  proof (cases "\<exists>j<length shares. j \<noteq> i \<and> x (shares ! j) = x (shares ! i)")
    case True
    then have "\<exists>j\<in>set [0..<length shares]. j \<noteq> i \<and> x (shares ! j) = x (shares ! i)"
      by auto
    from lagrange_term_fails [OF this] show ?thesis by simp
  next
    case False
    then have "\<forall>j\<in>set [0..<length shares]. j \<noteq> i \<longrightarrow> x (shares ! j) \<noteq> x (shares ! i)"
      by auto
    from lagrange_term_ok [OF this]
    obtain t where "lagrange_term at shares i [0..<length shares]
        (byte_at (y (shares ! i)) byteIndex) = Inr t"
      by blast
    moreover have "\<exists>i\<in>set is. \<exists>j<length shares. j \<noteq> i \<and> x (shares ! j) = x (shares ! i)"
      using Cons.prems False by auto
    ultimately show ?thesis using Cons.IH by simp
  qed
qed

lemma distinct_coordinates:
  "distinct (map x shares) \<longleftrightarrow>
   (\<forall>i<length shares. \<forall>j<length shares. j \<noteq> i \<longrightarrow> x (shares ! j) \<noteq> x (shares ! i))"
  by (auto simp add: distinct_conv_nth)

lemma interpolate_bytes_ok:
  assumes "distinct (map x shares)"
  shows "\<exists>bs. interpolate_bytes at shares ks out = Inr bs \<and> length bs = length out"
proof (induction ks arbitrary: out)
  case Nil
  then show ?case by simp
next
  case (Cons k ks)
  have "\<forall>i\<in>set [0..<length shares]. \<forall>j<length shares. j \<noteq> i \<longrightarrow> x (shares ! j) \<noteq> x (shares ! i)"
    using assms by (simp add: distinct_coordinates)
  from lagrange_sum_ok [OF this]
  obtain r where "lagrange_sum at shares k [0..<length shares] 0 = Inr r"
    by blast
  then show ?case using Cons [of "out[k := r]"] by simp
qed

lemma interpolate_bytes_fails:
  assumes "\<not> distinct (map x shares)" and "ks \<noteq> []"
  shows "interpolate_bytes at shares ks out = Inl DivisionByZero"
proof -
  obtain k ks' where ks: "ks = k # ks'"
    using assms(2) by (cases ks) simp_all
  have "\<exists>i\<in>set [0..<length shares]. \<exists>j<length shares. j \<noteq> i \<and> x (shares ! j) = x (shares ! i)"
    using assms(1) by (auto simp add: distinct_coordinates)
  from lagrange_sum_fails [OF this] show ?thesis
    by (simp add: ks)
qed

lemma fold_update_upt:
  "m \<le> length out \<Longrightarrow> fold (\<lambda>k o'. o'[k := g k]) [0..<m] out = map g [0..<m] @ drop m out"
proof (induction m)
  case 0
  then show ?case by simp
next
  case (Suc m)
  then have "m < length out" by simp
  then have "(map g [0..<m] @ drop m out)[m := g m] = map g [0..<m] @ [g m] @ drop (Suc m) out"
    by (simp add: list_update_append Cons_nth_drop_Suc [symmetric])
  with Suc show ?case by simp
qed

lemma interpolate_bytes_value:
  "\<forall>k\<in>set ks. lagrange_sum at shares k [0..<length shares] 0 = Inr (g k) \<Longrightarrow>
   interpolate_bytes at shares ks out = Inr (fold (\<lambda>k o'. o'[k := g k]) ks out)"
  by (induction ks arbitrary: out) simp_all

lemma interpolate_bytes_map:
  assumes "\<And>k. k < n \<Longrightarrow> lagrange_sum at shares k [0..<length shares] 0 = Inr (g k)"
  shows "interpolate_bytes at shares [0..<n] (replicate n 0) = Inr (map g [0..<n])"
proof -
  have "interpolate_bytes at shares [0..<n] (replicate n 0) =
      Inr (fold (\<lambda>k o'. o'[k := g k]) [0..<n] (replicate n 0))"
    using assms by (intro interpolate_bytes_value) simp
  then show ?thesis
    by (simp add: fold_update_upt)
qed

subsection \<open>The checks of reconstruct\<close>

lemma verifyShare_stamp: "verifyShare sha256 (stamped sha256 share) = Inr True"
  by (rule verifyShare_stamped) (simp add: stamped_def calculateShareHash_hash_update)

lemma invalidShares_all_valid:
  "\<forall>s\<in>set shares. verifyShare sha256 s = Inr True \<Longrightarrow> invalidShares sha256 shares = Inr []"
  by (induction shares) simp_all

lemma invalidShares_some_invalid:
  "\<forall>s\<in>set shares. \<exists>b. verifyShare sha256 s = Inr b \<Longrightarrow>
   \<exists>s\<in>set shares. verifyShare sha256 s = Inr False \<Longrightarrow>
   \<exists>bad. invalidShares sha256 shares = Inr bad \<and> bad \<noteq> []"
proof (induction shares)
  case Nil
  then show ?case by simp
next
  case (Cons s shares)
  obtain b where b: "verifyShare sha256 s = Inr b"
    using Cons.prems(1) by auto
  have rest: "\<exists>bad. invalidShares sha256 shares = Inr bad"
    using Cons.prems(1)
  proof (induction shares)
    case Nil
    then show ?case by simp
  next
    case (Cons t ts)
    then show ?case by (auto split: sum.splits)
  qed
  show ?case
  proof (cases b)
    case True
    then have "\<exists>s\<in>set shares. verifyShare sha256 s = Inr False"
      using Cons.prems(2) b by auto
    with Cons.IH Cons.prems(1) obtain bad where "invalidShares sha256 shares = Inr bad" "bad \<noteq> []"
      by auto
    then show ?thesis using b True by simp
  next
    case False
    then show ?thesis using b rest by auto
  qed
qed

lemma versions_differ:
  "1 < card (set (map version shares)) \<longleftrightarrow>
   (\<exists>s\<in>set shares. \<exists>t\<in>set shares. version s \<noteq> version t)"
proof -
  have "card (set (map version shares)) \<le> Suc 0 \<longleftrightarrow>
      (\<forall>a\<in>set (map version shares). \<forall>b\<in>set (map version shares). a = b)"
    by (rule card_le_Suc0_iff_eq) simp
  then show ?thesis by (auto simp add: not_le [symmetric] simp del: not_le)
qed

lemma reconstruct_too_few:
  "length shares < 2 \<Longrightarrow> reconstruct sha256 shares = Inl NeedAtLeast2Shares"
  by (simp add: reconstruct_def)

lemma reconstruct_tampered:
  assumes "2 \<le> length shares"
    and "\<forall>s\<in>set shares. \<exists>b. verifyShare sha256 s = Inr b"
    and "\<exists>s\<in>set shares. verifyShare sha256 s = Inr False"
  shows "reconstruct sha256 shares = Inl InvalidOrTamperedShares"
proof -
  obtain bad where "invalidShares sha256 shares = Inr bad" "bad \<noteq> []"
    using invalidShares_some_invalid [OF assms(2,3)] by blast
  then show ?thesis using assms(1) by (simp add: reconstruct_def)
qed

lemma reconstruct_versions:
  assumes "2 \<le> length shares"
    and "\<forall>s\<in>set shares. verifyShare sha256 s = Inr True"
    and "\<exists>s\<in>set shares. \<exists>t\<in>set shares. version s \<noteq> version t"
  shows "reconstruct sha256 shares = Inl IncompatibleShareVersions"
  using assms(1) invalidShares_all_valid [OF assms(2)] versions_differ [of shares] assms(3)
  by (simp add: reconstruct_def)

lemma reconstruct_interpolates:
  assumes "2 \<le> length shares"
    and "\<forall>s\<in>set shares. verifyShare sha256 s = Inr True"
    and "\<forall>s\<in>set shares. \<forall>t\<in>set shares. version s = version t"
  shows "reconstruct sha256 shares =
    interpolate_bytes 0 shares [0..<length (y (shares ! 0))]
      (replicate (length (y (shares ! 0))) 0)"
proof -
  have "\<not> 1 < card (set (map version shares))"
    using assms(3) by (simp only: versions_differ) blast
  then show ?thesis
    using assms(1) invalidShares_all_valid [OF assms(2)]
    by (simp add: reconstruct_def Let_def)
qed

lemma reconstruct_outcome:
  assumes "2 \<le> length shares"
    and "\<forall>s\<in>set shares. verifyShare sha256 s = Inr True"
    and "\<forall>s\<in>set shares. \<forall>t\<in>set shares. version s = version t"
  shows "if distinct (map x shares) \<or> y (shares ! 0) = []
         then \<exists>bs. reconstruct sha256 shares = Inr bs \<and> length bs = length (y (shares ! 0))
         else reconstruct sha256 shares = Inl DivisionByZero"
proof (cases "y (shares ! 0) = []")
  case True
  then show ?thesis by (simp add: reconstruct_interpolates [OF assms])
next
  case nonempty: False
  show ?thesis
  proof (cases "distinct (map x shares)")
    case True
    from interpolate_bytes_ok [OF this, of 0 "[0..<length (y (shares ! 0))]"
        "replicate (length (y (shares ! 0))) 0"]
    show ?thesis
      using True by (simp add: reconstruct_interpolates [OF assms])
  next
    case False
    moreover have "[0..<length (y (shares ! 0))] \<noteq> []"
      using nonempty by simp
    ultimately have "interpolate_bytes 0 shares [0..<length (y (shares ! 0))]
        (replicate (length (y (shares ! 0))) 0) = Inl DivisionByZero"
      by (rule interpolate_bytes_fails)
    then show ?thesis
      using False nonempty by (simp add: reconstruct_interpolates [OF assms])
  qed
qed

text \<open>
  C5. Two shares that pass the checks (both verify, same version) and carry the same
  coordinate \<open>x\<close>, the first with a non-empty payload: \<open>reconstruct\<close> fails with the
  division by zero of \<open>GF256.inverse\<close> and returns no byte sequence.
\<close>

theorem C5_duplicate_coordinate:
  assumes "verifyShare sha256 a = Inr True" and "verifyShare sha256 b = Inr True"
    and "version a = version b" and "x a = x b" and "y a \<noteq> []"
  shows "reconstruct sha256 [a, b] = Inl DivisionByZero
    \<and> (\<forall>bs. reconstruct sha256 [a, b] \<noteq> Inr bs)"
proof -
  have "if distinct (map x [a, b]) \<or> y ([a, b] ! 0) = []
      then \<exists>bs. reconstruct sha256 [a, b] = Inr bs \<and> length bs = length (y ([a, b] ! 0))
      else reconstruct sha256 [a, b] = Inl DivisionByZero"
    using assms(1-3) by (intro reconstruct_outcome) auto
  then show ?thesis
    using assms(4,5) by simp
qed

theorem C5_duplicate_coordinate_witness:
  "\<forall>sha256.
     reconstruct sha256
       [stamped sha256 \<lparr>type = deviceShare, x = 1, y = [0x41, 0x42], version = 1, hash = []\<rparr>,
        stamped sha256 \<lparr>type = deviceShare, x = 1, y = [0x17, 0x2a], version = 1, hash = []\<rparr>]
     = Inl DivisionByZero"
proof
  fix sha256
  show "reconstruct sha256
       [stamped sha256 \<lparr>type = deviceShare, x = 1, y = [0x41, 0x42], version = 1, hash = []\<rparr>,
        stamped sha256 \<lparr>type = deviceShare, x = 1, y = [0x17, 0x2a], version = 1, hash = []\<rparr>]
     = Inl DivisionByZero"
    using C5_duplicate_coordinate [of sha256
        "stamped sha256 \<lparr>type = deviceShare, x = 1, y = [0x41, 0x42], version = 1, hash = []\<rparr>"
        "stamped sha256 \<lparr>type = deviceShare, x = 1, y = [0x17, 0x2a], version = 1, hash = []\<rparr>"]
    by (simp add: verifyShare_stamp) (simp add: stamped_def)
qed

lemma stamped_fields:
  "type (stamped sha256 share) = type share"
  "x (stamped sha256 share) = x share"
  "y (stamped sha256 share) = y share"
  "version (stamped sha256 share) = version share"
  "hash (stamped sha256 share) = calculateShareHash sha256 share"
  by (simp_all add: stamped_def)

text \<open>
  C4 (as the code has it). \<open>reconstruct\<close> checks, in this order and before any
  interpolation: fewer than 2 shares fail with "Need at least 2 shares"; if every
  \<open>verifyShare\<close> returns and one returns false, the whole call fails with "Invalid or
  tampered shares"; if all verify and two versions differ, it fails with "Incompatible
  share versions". Otherwise the result is that of the interpolation at 0 over the payload
  length of the first share: a byte sequence of that length when the coordinates are
  pairwise distinct or that payload is empty, and the division by zero of
  \<open>GF256.inverse\<close> when two shares carry the same coordinate.
\<close>

theorem C4_reconstruct_checks:
  "(length shares < 2 \<longrightarrow> reconstruct sha256 shares = Inl NeedAtLeast2Shares)
   \<and> (2 \<le> length shares \<and> (\<forall>s\<in>set shares. \<exists>b. verifyShare sha256 s = Inr b)
        \<and> (\<exists>s\<in>set shares. verifyShare sha256 s = Inr False)
      \<longrightarrow> reconstruct sha256 shares = Inl InvalidOrTamperedShares)
   \<and> (2 \<le> length shares \<and> (\<forall>s\<in>set shares. verifyShare sha256 s = Inr True)
        \<and> (\<exists>s\<in>set shares. \<exists>t\<in>set shares. version s \<noteq> version t)
      \<longrightarrow> reconstruct sha256 shares = Inl IncompatibleShareVersions)
   \<and> (2 \<le> length shares \<and> (\<forall>s\<in>set shares. verifyShare sha256 s = Inr True)
        \<and> (\<forall>s\<in>set shares. \<forall>t\<in>set shares. version s = version t)
      \<longrightarrow> reconstruct sha256 shares =
            interpolate_bytes 0 shares [0..<length (y (shares ! 0))]
              (replicate (length (y (shares ! 0))) 0)
          \<and> (if distinct (map x shares) \<or> y (shares ! 0) = []
             then \<exists>bs. reconstruct sha256 shares = Inr bs \<and> length bs = length (y (shares ! 0))
             else reconstruct sha256 shares = Inl DivisionByZero))"
  using reconstruct_too_few [of shares sha256] reconstruct_tampered [of shares sha256]
    reconstruct_versions [of shares sha256] reconstruct_interpolates [of shares sha256]
    reconstruct_outcome [of shares sha256]
  by blast

theorem C4_reconstruct_checks_witness:
  "\<forall>sha256.
     reconstruct sha256
       [stamped sha256 \<lparr>type = deviceShare, x = 1, y = [0x0c], version = 1, hash = []\<rparr>]
       = Inl NeedAtLeast2Shares
   \<and> reconstruct sha256
       [stamped sha256 \<lparr>type = deviceShare, x = 1, y = [0x0c], version = 1, hash = []\<rparr>,
        \<lparr>type = serverShare, x = 2, y = [0xdb], version = 1, hash = []\<rparr>]
       = Inl InvalidOrTamperedShares
   \<and> reconstruct sha256
       [stamped sha256 \<lparr>type = deviceShare, x = 1, y = [0x0c], version = 1, hash = []\<rparr>,
        stamped sha256 \<lparr>type = serverShare, x = 2, y = [0xdb], version = 2, hash = []\<rparr>]
       = Inl IncompatibleShareVersions
   \<and> (\<exists>bs. reconstruct sha256
       [stamped sha256 \<lparr>type = deviceShare, x = 1, y = [0x0c], version = 1, hash = []\<rparr>,
        stamped sha256 \<lparr>type = serverShare, x = 2, y = [0xdb], version = 1, hash = []\<rparr>]
       = Inr bs \<and> length bs = 1)
   \<and> reconstruct sha256
       [stamped sha256 \<lparr>type = serverShare, x = 2, y = [0x0c], version = 1, hash = []\<rparr>,
        stamped sha256 \<lparr>type = serverShare, x = 2, y = [0xdb], version = 1, hash = []\<rparr>]
       = Inl DivisionByZero"
proof (intro allI conjI)
  fix sha256
  let ?d1 = "stamped sha256 \<lparr>type = deviceShare, x = 1, y = [0x0c], version = 1, hash = []\<rparr>"
  let ?s1 = "stamped sha256 \<lparr>type = serverShare, x = 2, y = [0xdb], version = 1, hash = []\<rparr>"
  let ?s2 = "stamped sha256 \<lparr>type = serverShare, x = 2, y = [0xdb], version = 2, hash = []\<rparr>"
  let ?s3 = "stamped sha256 \<lparr>type = serverShare, x = 2, y = [0x0c], version = 1, hash = []\<rparr>"
  let ?bad = "\<lparr>type = serverShare, x = 2, y = [0xdb], version = 1, hash = []\<rparr>"
  show "reconstruct sha256 [?d1] = Inl NeedAtLeast2Shares"
    using C4_reconstruct_checks [of "[?d1]" sha256] by simp
  show "reconstruct sha256 [?d1, ?bad] = Inl InvalidOrTamperedShares"
    using C4_reconstruct_checks [of "[?d1, ?bad]" sha256]
    by (auto simp add: verifyShare_stamp verifyShare_empty)
  show "reconstruct sha256 [?d1, ?s2] = Inl IncompatibleShareVersions"
    using C4_reconstruct_checks [of "[?d1, ?s2]" sha256]
    by (auto simp add: verifyShare_stamp stamped_fields simp del: interpolate_bytes.simps)
  have ok: "2 \<le> length [?d1, ?s1] \<and> (\<forall>s\<in>set [?d1, ?s1]. verifyShare sha256 s = Inr True)
      \<and> (\<forall>s\<in>set [?d1, ?s1]. \<forall>t\<in>set [?d1, ?s1]. version s = version t)"
    by (simp add: verifyShare_stamp stamped_fields)
  have "distinct (map x [?d1, ?s1]) \<or> y ([?d1, ?s1] ! 0) = []"
    by (simp add: stamped_fields)
  with C4_reconstruct_checks [of "[?d1, ?s1]" sha256] ok
  have "\<exists>bs. reconstruct sha256 [?d1, ?s1] = Inr bs \<and> length bs = length (y ([?d1, ?s1] ! 0))"
    by (metis (no_types, lifting))
  then show "\<exists>bs. reconstruct sha256 [?d1, ?s1] = Inr bs \<and> length bs = 1"
    by (simp add: stamped_fields)
  have dup: "2 \<le> length [?s3, ?s1] \<and> (\<forall>s\<in>set [?s3, ?s1]. verifyShare sha256 s = Inr True)
      \<and> (\<forall>s\<in>set [?s3, ?s1]. \<forall>t\<in>set [?s3, ?s1]. version s = version t)"
    by (simp add: verifyShare_stamp stamped_fields)
  have "\<not> (distinct (map x [?s3, ?s1]) \<or> y ([?s3, ?s1] ! 0) = [])"
    by (simp add: stamped_fields)
  with C4_reconstruct_checks [of "[?s3, ?s1]" sha256] dup
  show "reconstruct sha256 [?s3, ?s1] = Inl DivisionByZero"
    by (metis (no_types, lifting))
qed

text \<open>
  C4 as stated promises the interpolated secret whenever the three checks pass. Two tagged
  server shares of the same version pass them, and \<open>reconstruct\<close> fails with a division
  by zero.
\<close>

theorem C4_checks_pass_no_secret:
  "\<forall>sha256.
     \<not> length
         [stamped sha256 \<lparr>type = serverShare, x = 2, y = [0x0c], version = 1, hash = []\<rparr>,
          stamped sha256 \<lparr>type = serverShare, x = 2, y = [0xdb], version = 1, hash = []\<rparr>] < 2
   \<and> verifyShare sha256
        (stamped sha256 \<lparr>type = serverShare, x = 2, y = [0x0c], version = 1, hash = []\<rparr>)
       = Inr True
   \<and> verifyShare sha256
        (stamped sha256 \<lparr>type = serverShare, x = 2, y = [0xdb], version = 1, hash = []\<rparr>)
       = Inr True
   \<and> version (stamped sha256 \<lparr>type = serverShare, x = 2, y = [0x0c], version = 1, hash = []\<rparr>)
       = version (stamped sha256 \<lparr>type = serverShare, x = 2, y = [0xdb], version = 1, hash = []\<rparr>)
   \<and> reconstruct sha256
         [stamped sha256 \<lparr>type = serverShare, x = 2, y = [0x0c], version = 1, hash = []\<rparr>,
          stamped sha256 \<lparr>type = serverShare, x = 2, y = [0xdb], version = 1, hash = []\<rparr>]
       = Inl DivisionByZero"
proof (intro allI conjI)
  fix sha256
  let ?a = "stamped sha256 \<lparr>type = serverShare, x = 2, y = [0x0c], version = 1, hash = []\<rparr>"
  let ?b = "stamped sha256 \<lparr>type = serverShare, x = 2, y = [0xdb], version = 1, hash = []\<rparr>"
  show "\<not> length [?a, ?b] < 2" by simp
  show "verifyShare sha256 ?a = Inr True" by (rule verifyShare_stamp)
  show "verifyShare sha256 ?b = Inr True" by (rule verifyShare_stamp)
  show "version ?a = version ?b" by (simp add: stamped_fields)
  have "if distinct (map x [?a, ?b]) \<or> y ([?a, ?b] ! 0) = []
      then \<exists>bs. reconstruct sha256 [?a, ?b] = Inr bs \<and> length bs = length (y ([?a, ?b] ! 0))
      else reconstruct sha256 [?a, ?b] = Inl DivisionByZero"
    by (intro reconstruct_outcome) (auto simp add: verifyShare_stamp stamped_fields)
  then show "reconstruct sha256 [?a, ?b] = Inl DivisionByZero"
    by (simp add: stamped_fields)
qed

subsection \<open>The rounds of split\<close>

lemma evaluation_two:
  "v \<in> {1, 2, 3} \<Longrightarrow> evaluation [s, r] v = poly_eval s r (of_nat v)"
  by (auto simp add: evaluation_def poly_eval_def GF256_add_def pow_0 pow_1 multiply_1_right)

lemma upt_1_4: "[Suc 0..<4] = [Suc 0, 2, 3]"
  by (simp add: upt_rec)

lemma payload_Suc:
  "payload rnd S i (Suc m) = payload rnd S i m @ [poly_eval (S ! m) (rnd m) (of_nat i)]"
  by (simp add: payload_def)

lemma length_payload: "length (payload rnd S i m) = m"
  by (simp add: payload_def)

lemma share_after_update:
  assumes "m < length S"
  shows "(share_after rnd S i m)\<lparr>y := (y (share_after rnd S i m))
            [m := poly_eval (S ! m) (rnd m) (of_nat i)]\<rparr> = share_after rnd S i (Suc m)"
proof -
  have "replicate (length S - m) (0::byte) = 0 # replicate (length S - Suc m) 0"
    using assms by (simp add: replicate_Suc [symmetric] Suc_diff_Suc del: replicate_Suc)
  then show ?thesis
    by (simp add: share_after_def payload_Suc list_update_append length_payload)
qed

lemma share_after_0:
  "share_after rnd S i 0 =
     \<lparr>type = shareTypes ! (i - 1), x = of_nat i, y = replicate (length S) 0,
      version = 1, hash = []\<rparr>"
  by (simp add: share_after_def payload_def)

lemma split_byte_step_first:
  assumes "0 < length S"
  shows "split_byte_step rnd S 0 [] =
     [share_after rnd S 1 1, share_after rnd S 2 1, share_after rnd S 3 1]"
  using share_after_update [OF assms, of rnd 1] share_after_update [OF assms, of rnd 2]
    share_after_update [OF assms, of rnd 3]
  by (simp add: split_byte_step_def split_share_step_def upt_1_4 Let_def evaluation_two
      share_after_0)

lemma split_byte_step_next:
  assumes "m < length S"
  shows "split_byte_step rnd S m
       [share_after rnd S 1 m, share_after rnd S 2 m, share_after rnd S 3 m] =
     [share_after rnd S 1 (Suc m), share_after rnd S 2 (Suc m), share_after rnd S 3 (Suc m)]"
  using share_after_update [OF assms, of rnd 1] share_after_update [OF assms, of rnd 2]
    share_after_update [OF assms, of rnd 3]
  by (simp add: split_byte_step_def split_share_step_def upt_1_4 Let_def evaluation_two)

lemma split_rounds:
  "Suc m \<le> length S \<Longrightarrow>
   fold (split_byte_step rnd S) [0..<Suc m] [] =
     [share_after rnd S 1 (Suc m), share_after rnd S 2 (Suc m), share_after rnd S 3 (Suc m)]"
proof (induction m)
  case 0
  then have "0 < length S" by (cases S) simp_all
  from split_byte_step_first [OF this, of rnd] show ?case by simp
next
  case (Suc m)
  then have "Suc m < length S" by simp
  from split_byte_step_next [OF this] Suc show ?case by simp
qed

lemma split_empty: "split sha256 rnd [] = []"
  by (simp add: split_def)

lemma split_nonempty:
  assumes "S \<noteq> []"
  shows "split sha256 rnd S =
     [stamped sha256 (share_after rnd S 1 (length S)),
      stamped sha256 (share_after rnd S 2 (length S)),
      stamped sha256 (share_after rnd S 3 (length S))]"
proof -
  obtain m where m: "length S = Suc m"
    using assms by (cases S) simp_all
  have "fold (split_byte_step rnd S) [0..<length S] [] =
     [share_after rnd S 1 (length S), share_after rnd S 2 (length S),
      share_after rnd S 3 (length S)]"
    unfolding m by (rule split_rounds) (simp add: m)
  then show ?thesis
    by (simp add: split_def stamped_def)
qed

lemma share_after_fields:
  "type (share_after rnd S i (length S)) = shareTypes ! (i - 1)"
  "x (share_after rnd S i (length S)) = of_nat i"
  "y (share_after rnd S i (length S)) = payload rnd S i (length S)"
  "version (share_after rnd S i (length S)) = 1"
  by (simp_all add: share_after_def)

text \<open>
  C2 (as the code has it). For every secret of length \<open>L \<ge> 1\<close>, \<open>split\<close> returns exactly 3
  shares in the order device, server, recovery, with coordinates 1, 2, 3, each with a
  payload of length \<open>L\<close> and version 1. For the empty secret the loop that creates the
  shares never runs and \<open>split\<close> returns no share.
\<close>

theorem C2_split_shape:
  "(privateKey \<noteq> [] \<longrightarrow>
      length (split sha256 rnd privateKey) = 3
      \<and> map type (split sha256 rnd privateKey) = [deviceShare, serverShare, recoveryShare]
      \<and> map x (split sha256 rnd privateKey) = [1, 2, 3]
      \<and> map (\<lambda>s. length (y s)) (split sha256 rnd privateKey) =
          [length privateKey, length privateKey, length privateKey]
      \<and> map version (split sha256 rnd privateKey) = [1, 1, 1])
   \<and> (privateKey = [] \<longrightarrow> split sha256 rnd privateKey = [])"
  by (simp add: split_nonempty split_empty stamped_fields share_after_fields shareTypes_def
      length_payload)

theorem C2_split_shape_witness:
  "\<forall>sha256 rnd.
     length (split sha256 rnd [0x41, 0x42]) = 3
     \<and> map type (split sha256 rnd [0x41, 0x42]) = [deviceShare, serverShare, recoveryShare]
     \<and> map x (split sha256 rnd [0x41, 0x42]) = [1, 2, 3]
     \<and> map (\<lambda>s. length (y s)) (split sha256 rnd [0x41, 0x42]) = [2, 2, 2]
     \<and> map version (split sha256 rnd [0x41, 0x42]) = [1, 1, 1]
     \<and> split sha256 rnd [] = []"
proof (intro allI)
  fix sha256 :: digest_fn and rnd :: "nat \<Rightarrow> byte"
  have "[0x41, 0x42 :: byte] \<noteq> []" by simp
  with C2_split_shape [of "[0x41, 0x42]" sha256 rnd] C2_split_shape [of "[]" sha256 rnd]
  show "length (split sha256 rnd [0x41, 0x42]) = 3
     \<and> map type (split sha256 rnd [0x41, 0x42]) = [deviceShare, serverShare, recoveryShare]
     \<and> map x (split sha256 rnd [0x41, 0x42]) = [1, 2, 3]
     \<and> map (\<lambda>s. length (y s)) (split sha256 rnd [0x41, 0x42]) = [2, 2, 2]
     \<and> map version (split sha256 rnd [0x41, 0x42]) = [1, 1, 1]
     \<and> split sha256 rnd [] = []"
    by simp
qed

text \<open>C2 as stated asks for three shares with empty payload at \<open>L = 0\<close>; the code returns
  the empty array.\<close>

theorem C2_split_empty_secret:
  "\<forall>sha256 rnd. split sha256 rnd [] = [] \<and> length (split sha256 rnd []) \<noteq> 3"
  by (simp add: split_empty)

subsection \<open>Interpolation through two points of a line\<close>

lemma xor_swap_cancel: "(t XOR b) XOR (t XOR a) = a XOR b" for a b t :: byte
proof -
  have "(t XOR b) XOR (t XOR a) = (t XOR t) XOR (a XOR b)"
    by (simp only: xor.assoc xor.left_commute xor.commute)
  then show ?thesis by simp
qed

lemma two_point_algebra:
  assumes v: "GF256_multiply (xa XOR xb) v = 1"
  shows "GF256_multiply (poly_eval s r xa) (GF256_multiply (t XOR xb) v) XOR
         GF256_multiply (poly_eval s r xb) (GF256_multiply (t XOR xa) v) = poly_eval s r t"
proof -
  let ?A = "GF256_multiply (t XOR xb) v"
  let ?B = "GF256_multiply (t XOR xa) v"
  have AB: "?A XOR ?B = 1"
  proof -
    have "?A XOR ?B = GF256_multiply ((t XOR xb) XOR (t XOR xa)) v"
      by (simp only: multiply_xor_left)
    then show ?thesis by (simp only: xor_swap_cancel v)
  qed
  have xAB: "GF256_multiply xa ?A XOR GF256_multiply xb ?B = t"
  proof -
    have "GF256_multiply xa ?A = GF256_multiply (GF256_multiply xa t XOR GF256_multiply xa xb) v"
      by (simp only: multiply_assoc [symmetric] multiply_xor_right)
    moreover have "GF256_multiply xb ?B =
        GF256_multiply (GF256_multiply xb t XOR GF256_multiply xa xb) v"
      by (simp only: multiply_assoc [symmetric] multiply_xor_right multiply_commute [of xb xa])
    ultimately have "GF256_multiply xa ?A XOR GF256_multiply xb ?B =
        GF256_multiply ((GF256_multiply xa t XOR GF256_multiply xa xb) XOR
          (GF256_multiply xb t XOR GF256_multiply xa xb)) v"
      by (simp only: multiply_xor_left)
    also have "(GF256_multiply xa t XOR GF256_multiply xa xb) XOR
          (GF256_multiply xb t XOR GF256_multiply xa xb) =
        GF256_multiply xa t XOR GF256_multiply xb t"
      using xor_swap_cancel [of "GF256_multiply xa xb" "GF256_multiply xa t" "GF256_multiply xb t"]
      by (simp only: xor.commute)
    also have "\<dots> = GF256_multiply t (xa XOR xb)"
      by (simp only: multiply_xor_left [symmetric] multiply_commute [of t])
    finally show ?thesis
      by (simp only: multiply_assoc v multiply_1_right)
  qed
  have "GF256_multiply (poly_eval s r xa) ?A XOR GF256_multiply (poly_eval s r xb) ?B =
      (GF256_multiply s ?A XOR GF256_multiply r (GF256_multiply xa ?A)) XOR
      (GF256_multiply s ?B XOR GF256_multiply r (GF256_multiply xb ?B))"
    by (simp only: poly_eval_def multiply_xor_left multiply_assoc)
  also have "\<dots> = (GF256_multiply s ?A XOR GF256_multiply s ?B) XOR
      (GF256_multiply r (GF256_multiply xa ?A) XOR GF256_multiply r (GF256_multiply xb ?B))"
    by (simp only: xor.assoc xor.left_commute)
  also have "\<dots> = GF256_multiply s (?A XOR ?B) XOR
      GF256_multiply r (GF256_multiply xa ?A XOR GF256_multiply xb ?B)"
    by (simp only: multiply_xor_right)
  finally show ?thesis
    by (simp only: AB xAB multiply_1_right poly_eval_def)
qed

lemma byte_at_map: "k < n \<Longrightarrow> byte_at (map f [0..<n]) k = f k"
  by (simp add: byte_at_def)

lemma lagrange_sum_two:
  assumes ne: "x a \<noteq> x b"
    and ya: "byte_at (y a) k = poly_eval s r (x a)"
    and yb: "byte_at (y b) k = poly_eval s r (x b)"
  shows "lagrange_sum t [a, b] k [0..<length [a, b]] 0 = Inr (poly_eval s r t)"
proof -
  have "x a XOR x b \<noteq> 0"
    using ne by (simp add: xor_eq_0)
  then obtain v where v: "GF256_inverse (x a XOR x b) = Inr v" "GF256_multiply (x a XOR x b) v = 1"
    using inverse_nonzero by blast
  have v': "GF256_inverse (x b XOR x a) = Inr v"
    using v(1) by (simp only: xor.commute)
  have "lagrange_sum t [a, b] k [0..<length [a, b]] 0 =
      Inr (GF256_multiply (poly_eval s r (x a)) (GF256_multiply (t XOR x b) v) XOR
           GF256_multiply (poly_eval s r (x b)) (GF256_multiply (t XOR x a) v))"
    by (simp add: Let_def GF256_subtract_def GF256_add_def v v' ya yb)
  then show ?thesis
    by (simp only: two_point_algebra [OF v(2)])
qed

lemma multiply_left_commute:
  "GF256_multiply a (GF256_multiply b c) = GF256_multiply b (GF256_multiply a c)"
  by (metis multiply_assoc multiply_commute)

lemmas multiply_ac = multiply_assoc multiply_commute multiply_left_commute

lemma poly_eval_0: "poly_eval s r 0 = s"
  by (simp add: poly_eval_def multiply_0_right)

lemma lagrange_sum_three:
  assumes xs: "x a = 1" "x b = 2" "x c = 3"
    and ya: "byte_at (y a) k = poly_eval s r 1"
    and yb: "byte_at (y b) k = poly_eval s r 2"
    and yc: "byte_at (y c) k = poly_eval s r 3"
  shows "lagrange_sum 0 [a, b, c] k [0..<length [a, b, c]] 0 = Inr s"
proof -
  obtain v2 where v2: "GF256_inverse 2 = Inr v2" "GF256_multiply 2 v2 = 1"
    using inverse_nonzero [of 2] by auto
  obtain v3 where v3: "GF256_inverse 3 = Inr v3" "GF256_multiply 3 v3 = 1"
    using inverse_nonzero [of 3] by auto
  have v1: "GF256_inverse 1 = Inr 1"
    by (simp add: GF256_inverse_def)
  have e1: "GF256_multiply 2 (GF256_multiply v3 (GF256_multiply 3 v2)) = 1"
  proof -
    have "GF256_multiply 2 (GF256_multiply v3 (GF256_multiply 3 v2)) =
        GF256_multiply (GF256_multiply 2 v2) (GF256_multiply 3 v3)"
      by (simp only: multiply_ac)
    then show ?thesis by (simp only: v2 v3 multiply_1_left)
  qed
  have e2: "GF256_multiply v3 3 = 1" "GF256_multiply v2 2 = 1"
    using v2(2) v3(2) by (simp_all only: multiply_commute)
  have "lagrange_sum 0 [a, b, c] k [0..<length [a, b, c]] 0 =
      Inr ((GF256_multiply (GF256_multiply (poly_eval s r 1) (GF256_multiply 2 v3))
              (GF256_multiply 3 v2) XOR
            GF256_multiply (GF256_multiply (poly_eval s r 2) v3) 3) XOR
           GF256_multiply (GF256_multiply (poly_eval s r 3) v2) 2)"
    by (simp add: Let_def GF256_subtract_def GF256_add_def xs ya yb yc v1 v2 v3
        multiply_1_left multiply_1_right)
  also have "\<dots> = Inr ((poly_eval s r 1 XOR poly_eval s r 2) XOR poly_eval s r 3)"
    by (simp only: multiply_assoc e1 e2 multiply_1_right)
  also have "(poly_eval s r 1 XOR poly_eval s r 2) XOR poly_eval s r 3 =
      (s XOR (s XOR s)) XOR GF256_multiply r ((1 XOR 2) XOR 3)"
    by (simp only: poly_eval_def multiply_xor_right xor.assoc xor.left_commute)
  also have "\<dots> = s"
    by (simp add: multiply_0_right)
  finally show ?thesis .
qed

subsection \<open>Reconstruction and derivation from the shares of split\<close>

lemma share_after_full:
  "share_after rnd S i (length S) =
     \<lparr>type = shareTypes ! (i - 1), x = of_nat i, y = payload rnd S i (length S),
      version = 1, hash = []\<rparr>"
  by (simp add: share_after_def)

lemma split_share_byte:
  "k < length S \<Longrightarrow>
   byte_at (y (stamped sha256 (share_after rnd S i (length S)))) k =
     poly_eval (S ! k) (rnd k) (of_nat i)"
  by (simp add: stamped_fields share_after_fields payload_def byte_at_map)

lemma coordinates_differ:
  "i \<in> {1, 2, 3} \<Longrightarrow> j \<in> {1, 2, 3} \<Longrightarrow> i \<noteq> j \<Longrightarrow> (of_nat i :: byte) \<noteq> of_nat j"
  by auto

lemma interpolate_split_pair:
  assumes "i \<in> {1, 2, 3}" "j \<in> {1, 2, 3}" "i \<noteq> j"
  shows "interpolate_bytes t
      [stamped sha256 (share_after rnd S i (length S)),
       stamped sha256 (share_after rnd S j (length S))]
      [0..<length S] (replicate (length S) 0) =
     Inr (map (\<lambda>k. poly_eval (S ! k) (rnd k) t) [0..<length S])"
proof (rule interpolate_bytes_map)
  fix k assume k: "k < length S"
  let ?a = "stamped sha256 (share_after rnd S i (length S))"
  let ?b = "stamped sha256 (share_after rnd S j (length S))"
  have "x ?a \<noteq> x ?b"
    using coordinates_differ [OF assms] by (simp add: stamped_fields share_after_fields)
  moreover have "byte_at (y ?a) k = poly_eval (S ! k) (rnd k) (x ?a)"
    using k by (simp add: split_share_byte) (simp add: stamped_fields share_after_fields)
  moreover have "byte_at (y ?b) k = poly_eval (S ! k) (rnd k) (x ?b)"
    using k by (simp add: split_share_byte) (simp add: stamped_fields share_after_fields)
  ultimately show "lagrange_sum t [?a, ?b] k [0..<length [?a, ?b]] 0 =
      Inr (poly_eval (S ! k) (rnd k) t)"
    by (rule lagrange_sum_two)
qed

lemma reconstruct_split_pair:
  assumes "i \<in> {1, 2, 3}" "j \<in> {1, 2, 3}" "i \<noteq> j"
  shows "reconstruct sha256
      [stamped sha256 (share_after rnd S i (length S)),
       stamped sha256 (share_after rnd S j (length S))] = Inr S"
proof -
  let ?a = "stamped sha256 (share_after rnd S i (length S))"
  let ?b = "stamped sha256 (share_after rnd S j (length S))"
  have "reconstruct sha256 [?a, ?b] =
      interpolate_bytes 0 [?a, ?b] [0..<length (y ([?a, ?b] ! 0))]
        (replicate (length (y ([?a, ?b] ! 0))) 0)"
    by (rule reconstruct_interpolates)
      (simp_all add: verifyShare_stamp stamped_fields share_after_fields)
  also have "length (y ([?a, ?b] ! 0)) = length S"
    by (simp add: stamped_fields share_after_fields length_payload)
  also have "interpolate_bytes 0 [?a, ?b] [0..<length S] (replicate (length S) 0) =
      Inr (map (\<lambda>k. poly_eval (S ! k) (rnd k) 0) [0..<length S])"
    using assms by (rule interpolate_split_pair)
  also have "map (\<lambda>k. poly_eval (S ! k) (rnd k) 0) [0..<length S] = S"
    by (simp add: poly_eval_0 map_nth)
  finally show ?thesis .
qed

lemma reconstruct_split_all:
  "reconstruct sha256
      [stamped sha256 (share_after rnd S 1 (length S)),
       stamped sha256 (share_after rnd S 2 (length S)),
       stamped sha256 (share_after rnd S 3 (length S))] = Inr S"
proof -
  let ?a = "stamped sha256 (share_after rnd S 1 (length S))"
  let ?b = "stamped sha256 (share_after rnd S 2 (length S))"
  let ?c = "stamped sha256 (share_after rnd S 3 (length S))"
  have "reconstruct sha256 [?a, ?b, ?c] =
      interpolate_bytes 0 [?a, ?b, ?c] [0..<length (y ([?a, ?b, ?c] ! 0))]
        (replicate (length (y ([?a, ?b, ?c] ! 0))) 0)"
    by (rule reconstruct_interpolates)
      (simp_all add: verifyShare_stamp stamped_fields share_after_fields)
  also have "length (y ([?a, ?b, ?c] ! 0)) = length S"
    by (simp add: stamped_fields share_after_fields length_payload)
  also have "interpolate_bytes 0 [?a, ?b, ?c] [0..<length S] (replicate (length S) 0) =
      Inr (map (\<lambda>k. S ! k) [0..<length S])"
  proof (rule interpolate_bytes_map)
    fix k assume k: "k < length S"
    show "lagrange_sum 0 [?a, ?b, ?c] k [0..<length [?a, ?b, ?c]] 0 = Inr (S ! k)"
      using split_share_byte [OF k, of sha256 rnd 1] split_share_byte [OF k, of sha256 rnd 2]
        split_share_byte [OF k, of sha256 rnd 3]
      by (intro lagrange_sum_three [where r = "rnd k"])
        (simp_all add: stamped_fields share_after_fields)
  qed
  also have "map (\<lambda>k. S ! k) [0..<length S] = S"
    by (simp add: map_nth)
  finally show ?thesis .
qed

lemma generate_checked:
  assumes "2 \<le> length shares" and "invalidShares sha256 shares = Inr []"
    and "\<not> 1 < card (set (map version shares))"
  shows "generateCompatibleShare sha256 privateKey shares shareType =
     (case interpolate_bytes (type_coordinate shareType) shares [0..<length privateKey]
             (replicate (length privateKey) 0) of
        Inl e \<Rightarrow> Inl e
      | Inr ys \<Rightarrow>
          Inr (stamped sha256 \<lparr>type = shareType, x = type_coordinate shareType, y = ys,
                 version = version (shares ! 0), hash = []\<rparr>))"
  using assms
  by (simp add: generateCompatibleShare_def Let_def type_coordinate_def stamped_def
      split: sum.splits)

lemma type_coordinate_shareTypes:
  "k \<in> {1, 2, 3} \<Longrightarrow> type_coordinate (shareTypes ! (k - 1)) = of_nat k"
  by (auto simp add: shareTypes_def type_coordinate_def)

lemma generate_split_pair:
  assumes "i \<in> {1, 2, 3}" "j \<in> {1, 2, 3}" "i \<noteq> j" and k: "k \<in> {1, 2, 3}"
    and len: "length privateKey = length S"
  shows "generateCompatibleShare sha256 privateKey
      [stamped sha256 (share_after rnd S i (length S)),
       stamped sha256 (share_after rnd S j (length S))] (shareTypes ! (k - 1)) =
     Inr (stamped sha256 (share_after rnd S k (length S)))"
proof -
  let ?a = "stamped sha256 (share_after rnd S i (length S))"
  let ?b = "stamped sha256 (share_after rnd S j (length S))"
  have valid: "invalidShares sha256 [?a, ?b] = Inr []"
    by (rule invalidShares_all_valid) (simp add: verifyShare_stamp)
  have versions: "\<not> 1 < card (set (map version [?a, ?b]))"
    by (simp add: stamped_fields share_after_fields)
  have interp: "interpolate_bytes (of_nat k) [?a, ?b] [0..<length privateKey]
      (replicate (length privateKey) 0) = Inr (payload rnd S k (length S))"
    using interpolate_split_pair [OF assms(1-3), of "of_nat k" sha256 rnd S]
    by (simp add: len payload_def)
  have "generateCompatibleShare sha256 privateKey [?a, ?b] (shareTypes ! (k - 1)) =
     (case interpolate_bytes (type_coordinate (shareTypes ! (k - 1))) [?a, ?b]
             [0..<length privateKey] (replicate (length privateKey) 0) of
        Inl e \<Rightarrow> Inl e
      | Inr ys \<Rightarrow>
          Inr (stamped sha256 \<lparr>type = shareTypes ! (k - 1),
                 x = type_coordinate (shareTypes ! (k - 1)), y = ys,
                 version = version ([?a, ?b] ! 0), hash = []\<rparr>))"
    by (rule generate_checked [OF _ valid versions]) simp
  also have "\<dots> = Inr (stamped sha256 \<lparr>type = shareTypes ! (k - 1), x = of_nat k,
             y = payload rnd S k (length S), version = version ([?a, ?b] ! 0), hash = []\<rparr>)"
    by (simp only: type_coordinate_shareTypes [OF k] interp sum.case)
  finally show ?thesis
    by (simp add: share_after_full stamped_fields)
qed

lemma split_nth:
  assumes "S \<noteq> []" and "i < 3"
  shows "split sha256 rnd S ! i = stamped sha256 (share_after rnd S (Suc i) (length S))"
proof -
  have "i = 0 \<or> i = 1 \<or> i = 2"
    using assms(2) by auto
  then show ?thesis
    by (auto simp add: split_nonempty [OF assms(1)] numeral_2_eq_2 numeral_3_eq_3)
qed

lemma Suc_in_123: "i < 3 \<Longrightarrow> Suc i \<in> {1, 2, 3}"
  by auto

text \<open>
  C1 (as the code has it). For every non-empty secret \<open>S\<close> and every outcome of the random
  draws, reconstructing from any two different shares of \<open>split(S)\<close>, in either order,
  yields \<open>S\<close>, and so does reconstructing from all three.
\<close>

theorem C1_round_trip:
  assumes "S \<noteq> []"
  shows "(\<forall>i<3. \<forall>j<3. i \<noteq> j \<longrightarrow>
            reconstruct sha256 [split sha256 rnd S ! i, split sha256 rnd S ! j] = Inr S)
         \<and> reconstruct sha256 (split sha256 rnd S) = Inr S"
proof (intro conjI allI impI)
  fix i j :: nat
  assume ij: "i < 3" "j < 3" "i \<noteq> j"
  have "reconstruct sha256
      [stamped sha256 (share_after rnd S (Suc i) (length S)),
       stamped sha256 (share_after rnd S (Suc j) (length S))] = Inr S"
    using ij by (intro reconstruct_split_pair Suc_in_123) simp_all
  then show "reconstruct sha256 [split sha256 rnd S ! i, split sha256 rnd S ! j] = Inr S"
    using ij by (simp only: split_nth [OF assms])
next
  show "reconstruct sha256 (split sha256 rnd S) = Inr S"
    using reconstruct_split_all [of sha256 rnd S]
    by (simp add: split_nonempty [OF assms])
qed

theorem C1_round_trip_witness:
  "\<forall>sha256 rnd.
     reconstruct sha256 [split sha256 rnd [0x41, 0x42] ! 0, split sha256 rnd [0x41, 0x42] ! 1]
       = Inr [0x41, 0x42]
     \<and> reconstruct sha256 [split sha256 rnd [0x41, 0x42] ! 0, split sha256 rnd [0x41, 0x42] ! 2]
       = Inr [0x41, 0x42]
     \<and> reconstruct sha256 [split sha256 rnd [0x41, 0x42] ! 1, split sha256 rnd [0x41, 0x42] ! 2]
       = Inr [0x41, 0x42]
     \<and> reconstruct sha256 (split sha256 rnd [0x41, 0x42]) = Inr [0x41, 0x42]"
proof (intro allI)
  fix sha256 :: digest_fn and rnd :: "nat \<Rightarrow> byte"
  have "[0x41, 0x42 :: byte] \<noteq> []" by simp
  from C1_round_trip [OF this, of sha256 rnd]
  show "reconstruct sha256 [split sha256 rnd [0x41, 0x42] ! 0, split sha256 rnd [0x41, 0x42] ! 1]
       = Inr [0x41, 0x42]
     \<and> reconstruct sha256 [split sha256 rnd [0x41, 0x42] ! 0, split sha256 rnd [0x41, 0x42] ! 2]
       = Inr [0x41, 0x42]
     \<and> reconstruct sha256 [split sha256 rnd [0x41, 0x42] ! 1, split sha256 rnd [0x41, 0x42] ! 2]
       = Inr [0x41, 0x42]
     \<and> reconstruct sha256 (split sha256 rnd [0x41, 0x42]) = Inr [0x41, 0x42]"
    by simp
qed

text \<open>C1 as stated includes the empty secret; \<open>split\<close> returns no share for it and
  \<open>reconstruct\<close> rejects the empty array.\<close>

theorem C1_empty_secret_no_round_trip:
  "\<forall>sha256 rnd.
     split sha256 rnd [] = []
     \<and> reconstruct sha256 (split sha256 rnd []) = Inl NeedAtLeast2Shares
     \<and> reconstruct sha256 (split sha256 rnd []) \<noteq> Inr []"
  by (simp add: split_empty reconstruct_def)

text \<open>
  C3. Take two different shares of \<open>split(S)\<close> (positions \<open>i\<close> and \<open>j\<close>) and the missing
  third identity (position \<open>k\<close>) as target, with a \<open>privateKey\<close> argument of the secret's
  length (\<open>KeyManager\<close> passes the payload of the first share).
  \<open>generateCompatibleShare\<close> returns a share with the coordinate and, byte for byte, the
  payload of the third share of \<open>split(S)\<close>; reconstructing from it and either input gives
  the same result as reconstructing from the two inputs, namely \<open>S\<close>.
\<close>

theorem C3_compatible_share:
  assumes "S \<noteq> []" and "length privateKey = length S"
    and "i < 3" "j < 3" "k < 3" and "i \<noteq> j" "k \<noteq> i" "k \<noteq> j"
  shows "\<exists>d. generateCompatibleShare sha256 privateKey
                [split sha256 rnd S ! i, split sha256 rnd S ! j] (shareTypes ! k) = Inr d
           \<and> x d = x (split sha256 rnd S ! k)
           \<and> y d = y (split sha256 rnd S ! k)
           \<and> reconstruct sha256 [d, split sha256 rnd S ! i] =
               reconstruct sha256 [split sha256 rnd S ! i, split sha256 rnd S ! j]
           \<and> reconstruct sha256 [d, split sha256 rnd S ! j] =
               reconstruct sha256 [split sha256 rnd S ! i, split sha256 rnd S ! j]
           \<and> reconstruct sha256 [split sha256 rnd S ! i, split sha256 rnd S ! j] = Inr S"
proof -
  let ?sh = "\<lambda>n. stamped sha256 (share_after rnd S (Suc n) (length S))"
  have nth: "split sha256 rnd S ! i = ?sh i" "split sha256 rnd S ! j = ?sh j"
      "split sha256 rnd S ! k = ?sh k"
    using assms by (simp_all add: split_nth)
  have mem: "Suc i \<in> {1, 2, 3}" "Suc j \<in> {1, 2, 3}" "Suc k \<in> {1, 2, 3}"
    using assms(3-5) by (simp_all only: Suc_in_123)
  have ne: "Suc i \<noteq> Suc j" "Suc k \<noteq> Suc i" "Suc k \<noteq> Suc j"
    using assms(6-8) by simp_all
  have "generateCompatibleShare sha256 privateKey [?sh i, ?sh j] (shareTypes ! (Suc k - 1)) =
      Inr (?sh k)"
    using mem(1,2) ne(1) mem(3) assms(2) by (rule generate_split_pair)
  moreover have "reconstruct sha256 [?sh k, ?sh i] = Inr S"
    using mem(3,1) ne(2) by (rule reconstruct_split_pair)
  moreover have "reconstruct sha256 [?sh k, ?sh j] = Inr S"
    using mem(3,2) ne(3) by (rule reconstruct_split_pair)
  moreover have "reconstruct sha256 [?sh i, ?sh j] = Inr S"
    using mem(1,2) ne(1) by (rule reconstruct_split_pair)
  ultimately show ?thesis
    by (simp add: nth)
qed

theorem C3_compatible_share_witness:
  "\<forall>sha256 rnd.
     \<exists>d. generateCompatibleShare sha256 [0, 0]
            [split sha256 rnd [0x41, 0x42] ! 0, split sha256 rnd [0x41, 0x42] ! 1] recoveryShare
            = Inr d
        \<and> x d = x (split sha256 rnd [0x41, 0x42] ! 2)
        \<and> y d = y (split sha256 rnd [0x41, 0x42] ! 2)
        \<and> reconstruct sha256 [d, split sha256 rnd [0x41, 0x42] ! 0] = Inr [0x41, 0x42]
        \<and> reconstruct sha256 [d, split sha256 rnd [0x41, 0x42] ! 1] = Inr [0x41, 0x42]"
proof (intro allI)
  fix sha256 :: digest_fn and rnd :: "nat \<Rightarrow> byte"
  have "[0x41, 0x42 :: byte] \<noteq> []" "length [0, 0 :: byte] = length [0x41, 0x42 :: byte]"
    "(0::nat) < 3" "(1::nat) < 3" "(2::nat) < 3" "(0::nat) \<noteq> 1" "(2::nat) \<noteq> 0" "(2::nat) \<noteq> 1"
    by simp_all
  from C3_compatible_share [OF this, of sha256 rnd]
  show "\<exists>d. generateCompatibleShare sha256 [0, 0]
            [split sha256 rnd [0x41, 0x42] ! 0, split sha256 rnd [0x41, 0x42] ! 1] recoveryShare
            = Inr d
        \<and> x d = x (split sha256 rnd [0x41, 0x42] ! 2)
        \<and> y d = y (split sha256 rnd [0x41, 0x42] ! 2)
        \<and> reconstruct sha256 [d, split sha256 rnd [0x41, 0x42] ! 0] = Inr [0x41, 0x42]
        \<and> reconstruct sha256 [d, split sha256 rnd [0x41, 0x42] ! 1] = Inr [0x41, 0x42]"
    by (auto simp add: shareTypes_def)
qed

subsection \<open>What the derived payload depends on\<close>

lemma lagrange_term_cong:
  assumes "\<forall>j<n. x (shares ! j) = x (shares' ! j)" and "i < n" and "\<forall>j\<in>set js. j < n"
  shows "lagrange_term at shares i js trm = lagrange_term at shares' i js trm"
  using assms(3)
proof (induction js arbitrary: trm)
  case Nil
  then show ?case by simp
next
  case (Cons j js)
  then have eq: "x (shares ! j) = x (shares' ! j)" "x (shares ! i) = x (shares' ! i)"
    using assms(1,2) by simp_all
  have IH: "lagrange_term at shares i js t = lagrange_term at shares' i js t" for t
    using Cons by simp
  show ?case
  proof (cases "i = j")
    case True
    with IH show ?thesis by simp
  next
    case False
    then show ?thesis
      by (cases "GF256_inverse (GF256_subtract (x (shares' ! i)) (x (shares' ! j)))")
        (simp_all add: Let_def eq IH)
  qed
qed

lemma lagrange_sum_cong:
  assumes "length shares = length shares'"
    and "\<forall>j<length shares. x (shares ! j) = x (shares' ! j)"
    and "\<forall>j<length shares. y (shares ! j) = y (shares' ! j)"
    and "\<forall>i\<in>set is. i < length shares"
  shows "lagrange_sum at shares byteIndex is result = lagrange_sum at shares' byteIndex is result"
  using assms(4)
proof (induction "is" arbitrary: result)
  case Nil
  then show ?case by simp
next
  case (Cons i "is")
  then have i: "i < length shares" by simp
  have "lagrange_term at shares i [0..<length shares] (byte_at (y (shares ! i)) byteIndex) =
      lagrange_term at shares' i [0..<length shares] (byte_at (y (shares ! i)) byteIndex)"
    using assms(2) i by (rule lagrange_term_cong) simp
  then show ?case
    using Cons assms(1,3) i by (simp split: sum.splits)
qed

lemma interpolate_bytes_cong:
  assumes "map x shares = map x shares'" and "map y shares = map y shares'"
  shows "interpolate_bytes at shares ks out = interpolate_bytes at shares' ks out"
proof -
  have len: "length shares = length shares'"
    using assms(1) by (rule map_eq_imp_length_eq)
  have xs: "\<forall>j<length shares. x (shares ! j) = x (shares' ! j)"
    using assms(1) len by (metis nth_map)
  have ys: "\<forall>j<length shares. y (shares ! j) = y (shares' ! j)"
    using assms(2) len by (metis nth_map)
  have sum: "lagrange_sum at shares k [0..<length shares] 0 =
      lagrange_sum at shares' k [0..<length shares'] 0" for k
    using lagrange_sum_cong [OF len xs ys, of "[0..<length shares]" at k 0] len by simp
  show ?thesis
    by (induction ks arbitrary: out) (simp_all add: sum split: sum.splits)
qed

lemma generate_Inr_payload:
  assumes "generateCompatibleShare sha256 privateKey shares shareType = Inr n"
  shows "interpolate_bytes (type_coordinate shareType) shares [0..<length privateKey]
           (replicate (length privateKey) 0) = Inr (y n)"
  using assms
  by (auto simp add: generateCompatibleShare_def Let_def type_coordinate_def
      split: if_splits sum.splits)

text \<open>
  C10. \<open>generateCompatibleShare\<close> reads its \<open>privateKey\<close> argument only through its length:
  two private keys of equal length give the same result (the same share, or the same
  error) for the same existing shares and target type. The derived payload depends only on
  that length, the coordinates and payloads of the existing shares, and the target type
  (hence its coordinate): two calls that succeed on share lists with the same \<open>x\<close> and \<open>y\<close>
  values return the same payload.
\<close>

theorem C10_privateKey_length_only:
  "(length privateKey = length privateKey' \<longrightarrow>
      generateCompatibleShare sha256 privateKey shares shareType =
      generateCompatibleShare sha256 privateKey' shares shareType)
   \<and> (length privateKey = length privateKey' \<and> map x shares = map x shares'
        \<and> map y shares = map y shares'
        \<and> generateCompatibleShare sha256 privateKey shares shareType = Inr n
        \<and> generateCompatibleShare sha256 privateKey' shares' shareType = Inr n'
      \<longrightarrow> y n = y n')"
proof (intro conjI impI)
  assume "length privateKey = length privateKey'"
  then show "generateCompatibleShare sha256 privateKey shares shareType =
      generateCompatibleShare sha256 privateKey' shares shareType"
    by (simp only: generateCompatibleShare_def)
next
  assume a: "length privateKey = length privateKey' \<and> map x shares = map x shares'
        \<and> map y shares = map y shares'
        \<and> generateCompatibleShare sha256 privateKey shares shareType = Inr n
        \<and> generateCompatibleShare sha256 privateKey' shares' shareType = Inr n'"
  then have "interpolate_bytes (type_coordinate shareType) shares [0..<length privateKey]
           (replicate (length privateKey) 0) = Inr (y n)"
    and "interpolate_bytes (type_coordinate shareType) shares' [0..<length privateKey]
           (replicate (length privateKey) 0) = Inr (y n')"
    using generate_Inr_payload [of sha256 privateKey shares shareType n]
      generate_Inr_payload [of sha256 privateKey' shares' shareType n']
    by simp_all
  moreover have "interpolate_bytes (type_coordinate shareType) shares [0..<length privateKey]
           (replicate (length privateKey) 0) =
      interpolate_bytes (type_coordinate shareType) shares' [0..<length privateKey]
           (replicate (length privateKey) 0)"
    using a by (intro interpolate_bytes_cong) simp_all
  ultimately show "y n = y n'" by simp
qed

theorem C10_privateKey_length_only_witness:
  "\<forall>sha256.
     generateCompatibleShare sha256 [0x00]
       [stamped sha256 \<lparr>type = deviceShare, x = 1, y = [0x0c], version = 1, hash = []\<rparr>,
        stamped sha256 \<lparr>type = serverShare, x = 2, y = [0xdb], version = 1, hash = []\<rparr>]
       recoveryShare
     = generateCompatibleShare sha256 [0x41]
       [stamped sha256 \<lparr>type = deviceShare, x = 1, y = [0x0c], version = 1, hash = []\<rparr>,
        stamped sha256 \<lparr>type = serverShare, x = 2, y = [0xdb], version = 1, hash = []\<rparr>]
       recoveryShare
   \<and> (\<exists>n n'.
        generateCompatibleShare sha256 [0x00]
          [stamped sha256 \<lparr>type = deviceShare, x = 1, y = [0x0c], version = 1, hash = []\<rparr>,
           stamped sha256 \<lparr>type = serverShare, x = 2, y = [0xdb], version = 1, hash = []\<rparr>]
          recoveryShare = Inr n
      \<and> generateCompatibleShare sha256 [0x41]
          [stamped sha256 \<lparr>type = serverShare, x = 1, y = [0x0c], version = 7, hash = []\<rparr>,
           stamped sha256 \<lparr>type = recoveryShare, x = 2, y = [0xdb], version = 7, hash = []\<rparr>]
          recoveryShare = Inr n'
      \<and> y n = y n')"
proof (intro allI conjI)
  fix sha256 :: digest_fn
  let ?a = "stamped sha256 \<lparr>type = deviceShare, x = 1, y = [0x0c], version = 1, hash = []\<rparr>"
  let ?b = "stamped sha256 \<lparr>type = serverShare, x = 2, y = [0xdb], version = 1, hash = []\<rparr>"
  let ?a' = "stamped sha256 \<lparr>type = serverShare, x = 1, y = [0x0c], version = 7, hash = []\<rparr>"
  let ?b' = "stamped sha256 \<lparr>type = recoveryShare, x = 2, y = [0xdb], version = 7, hash = []\<rparr>"
  have len: "length [0x00 :: byte] = length [0x41 :: byte]" by simp
  show "generateCompatibleShare sha256 [0x00] [?a, ?b] recoveryShare =
      generateCompatibleShare sha256 [0x41] [?a, ?b] recoveryShare"
    using C10_privateKey_length_only [of "[0x00]" "[0x41]" sha256 "[?a, ?b]" recoveryShare] len
    by blast
  have ok: "\<exists>n. generateCompatibleShare sha256 pk [s, t] recoveryShare = Inr n"
    if "verifyShare sha256 s = Inr True" "verifyShare sha256 t = Inr True"
      "version s = version t" "x s \<noteq> x t" for pk s t
  proof -
    have "invalidShares sha256 [s, t] = Inr []"
      by (rule invalidShares_all_valid) (simp add: that)
    moreover have "\<not> 1 < card (set (map version [s, t]))"
      using that(3) by simp
    moreover have "distinct (map x [s, t])"
      using that(4) by simp
    from interpolate_bytes_ok [OF this]
    obtain bs where "interpolate_bytes (type_coordinate recoveryShare) [s, t] [0..<length pk]
        (replicate (length pk) 0) = Inr bs"
      by blast
    ultimately show ?thesis
      by (simp add: generate_checked)
  qed
  obtain n where n: "generateCompatibleShare sha256 [0x00] [?a, ?b] recoveryShare = Inr n"
    using ok [of ?a ?b "[0x00]"] by (auto simp add: verifyShare_stamp stamped_fields)
  obtain n' where n': "generateCompatibleShare sha256 [0x41] [?a', ?b'] recoveryShare = Inr n'"
    using ok [of ?a' ?b' "[0x41]"] by (auto simp add: verifyShare_stamp stamped_fields)
  have "map x [?a, ?b] = map x [?a', ?b']" "map y [?a, ?b] = map y [?a', ?b']"
    by (simp_all add: stamped_fields)
  with C10_privateKey_length_only [of "[0x00]" "[0x41]" sha256 "[?a, ?b]" recoveryShare
      "[?a', ?b']" n n'] len n n'
  have "y n = y n'" by blast
  with n n' show "\<exists>n n'.
        generateCompatibleShare sha256 [0x00] [?a, ?b] recoveryShare = Inr n
      \<and> generateCompatibleShare sha256 [0x41] [?a', ?b'] recoveryShare = Inr n'
      \<and> y n = y n'"
    by blast
qed

end
